theory Spec2Isabelle
  imports Main "HOL-Library.Word"
begin

unbundle bit_operations_syntax

section \<open>Bytes, runes and run-time failures\<close>

text \<open>
  A Go \<open>byte\<close> is an 8-bit word and \<open>Text\<close> is a byte slice. A rune is an \<open>int32\<close>;
  only its value matters here, so it is an \<open>int\<close>. Indices that the source keeps
  non-negative are \<open>nat\<close>; the index of the backward scans, which runs below zero, is
  an \<open>int\<close>.

  A run-time panic of the source is a value \<open>Inl e\<close> of \<open>error + 'a\<close>.
\<close>

type_synonym byte = "8 word"
type_synonym Text = "byte list"

datatype error = SliceOutOfRange | IndexOutOfRange | NilDereference

text \<open>
  The slice expression \<open>s[a:b]\<close>. Go panics when \<open>a > b\<close> or \<open>b > cap(s)\<close>; the
  capacity is not visible in the source, so every \<open>b\<close> beyond the length counts as a panic.
\<close>

definition slice :: "'a list \<Rightarrow> nat \<Rightarrow> nat \<Rightarrow> error + 'a list" where
  "slice s a b = (if a \<le> b \<and> b \<le> length s then Inr (take (b - a) (drop a s)) else Inl SliceOutOfRange)"

section \<open>The standard library's UTF-8 decoder\<close>

definition RuneError :: int where
  "RuneError = 0xFFFD"

text \<open>
  \<open>utf8.DecodeRune\<close> of the Go standard library. The lead byte selects, through the
  library's table \<open>first\<close> and its \<open>acceptRanges\<close>, the length \<open>sz\<close> of the encoding
  and the range \<open>lo..hi\<close> accepted for the second byte; every further byte is a
  continuation byte \<open>0x80..0xBF\<close>. An invalid or truncated encoding decodes to
  \<open>(RuneError, 1)\<close>, the empty slice to \<open>(RuneError, 0)\<close>.
\<close>

definition firstSize :: "byte \<Rightarrow> nat" where
  "firstSize p0 = (if p0 < 0xE0 then 2 else if p0 < 0xF0 then 3 else 4)"

definition acceptLo :: "byte \<Rightarrow> byte" where
  "acceptLo p0 = (if p0 = 0xE0 then 0xA0 else if p0 = 0xF0 then 0x90 else 0x80)"

definition acceptHi :: "byte \<Rightarrow> byte" where
  "acceptHi p0 = (if p0 = 0xED then 0x9F else if p0 = 0xF4 then 0x8F else 0xBF)"

text \<open>The part of \<open>DecodeRune\<close> after the table lookups, for a multi-byte lead byte.\<close>

definition decodeMulti :: "nat \<Rightarrow> byte \<Rightarrow> byte \<Rightarrow> Text \<Rightarrow> int \<times> nat" where
  "decodeMulti sz lo hi p =
    (if length p < sz then (RuneError, 1)
     else
       let p0 = p ! 0; b1 = p ! 1 in
       if b1 < lo \<or> hi < b1 then (RuneError, 1)
       else if sz \<le> 2 then
         (push_bit 6 (uint (p0 AND 0x1F)) OR uint (b1 AND 0x3F), 2)
       else
         let b2 = p ! 2 in
         if b2 < 0x80 \<or> 0xBF < b2 then (RuneError, 1)
         else if sz \<le> 3 then
           (push_bit 12 (uint (p0 AND 0x0F)) OR push_bit 6 (uint (b1 AND 0x3F))
              OR uint (b2 AND 0x3F), 3)
         else
           let b3 = p ! 3 in
           if b3 < 0x80 \<or> 0xBF < b3 then (RuneError, 1)
           else
             (push_bit 18 (uint (p0 AND 0x07)) OR push_bit 12 (uint (b1 AND 0x3F))
                OR push_bit 6 (uint (b2 AND 0x3F)) OR uint (b3 AND 0x3F), 4))"

definition DecodeRune :: "Text \<Rightarrow> int \<times> nat" where
  "DecodeRune p =
    (case p of
       [] \<Rightarrow> (RuneError, 0)
     | p0 # _ \<Rightarrow>
        if p0 < 0x80 then (uint p0, 1)
        else if p0 < 0xC2 \<or> 0xF4 < p0 then (RuneError, 1)
        else decodeMulti (firstSize p0) (acceptLo p0) (acceptHi p0) p)"

section \<open>Splitting text into units\<close>

text \<open>\<open>toLower\<close>: the bytes \<open>'A'..'Z'\<close> become \<open>'a'..'z'\<close>, every other byte is kept.\<close>

definition toLowerByte :: "byte \<Rightarrow> byte" where
  "toLowerByte t = (if 0x41 \<le> t \<and> t \<le> 0x5A then t - 0x41 + 0x61 else t)"

definition toLower :: "Text \<Rightarrow> Text" where
  "toLower text = map toLowerByte text"

text \<open>
  The loop of \<open>splitTextToWords\<close>. Its state is the source's: \<open>current\<close>,
  \<open>inAlphanumeric\<close>, \<open>alphanumericStart\<close> and \<open>output\<close>. The tables behind
  \<open>unicode.IsLetter\<close> and \<open>unicode.IsNumber\<close> belong to the standard library and are
  the parameter \<open>alnum\<close>: \<open>alnum r\<close> stands for \<open>unicode.IsLetter(r) || unicode.IsNumber(r)\<close>.
  The branch taken after the loop (the flush of a trailing run) is the \<open>else\<close> of the
  loop test.
\<close>

lemma decodeMulti_size:
  "2 \<le> sz \<Longrightarrow> 1 \<le> snd (decodeMulti sz lo hi p) \<and> snd (decodeMulti sz lo hi p) \<le> max 1 (length p)"
  by (auto simp: decodeMulti_def Let_def)

lemma DecodeRune_size:
  assumes "p \<noteq> []"
  shows "1 \<le> snd (DecodeRune p) \<and> snd (DecodeRune p) \<le> length p"
proof (cases p)
  case Nil
  with assms show ?thesis by simp
next
  case (Cons p0 ps)
  have "2 \<le> firstSize p0"
    by (simp add: firstSize_def)
  from decodeMulti_size [OF this, of "acceptLo p0" "acceptHi p0" p] Cons
  show ?thesis
    by (auto simp: DecodeRune_def Suc_le_eq)
qed

lemma splitLoop_measure:
  "current < length text \<Longrightarrow>
   length text - (current + snd (DecodeRune (drop current text))) < length text - current"
  using DecodeRune_size [of "drop current text"] by auto

lemma splitLoop_measure0:
  "text \<noteq> [] \<Longrightarrow> length text - snd (DecodeRune text) < length text"
  using DecodeRune_size [of "text"] by auto

function splitLoop ::
  "(int \<Rightarrow> bool) \<Rightarrow> Text \<Rightarrow> nat \<Rightarrow> bool \<Rightarrow> nat \<Rightarrow> Text list \<Rightarrow> error + Text list" where
  "splitLoop alnum text current inAlphanumeric alphanumericStart output =
    (if current < length text then
       (case slice text current (length text) of
          Inl e \<Rightarrow> Inl e
        | Inr rest \<Rightarrow>
           let r = fst (DecodeRune rest); size = snd (DecodeRune rest) in
           if size \<le> 2 \<and> alnum r then
             (if \<not> inAlphanumeric
              then splitLoop alnum text (current + size) True current output
              else splitLoop alnum text (current + size) inAlphanumeric alphanumericStart output)
           else
             (case (if inAlphanumeric \<and> current \<noteq> 0
                    then (case slice text alphanumericStart current of
                            Inl e \<Rightarrow> Inl e
                          | Inr run \<Rightarrow> Inr (output @ [toLower run]))
                    else Inr output) of
                Inl e \<Rightarrow> Inl e
              | Inr output1 \<Rightarrow>
                 (case slice text current (current + size) of
                    Inl e \<Rightarrow> Inl e
                  | Inr unit \<Rightarrow>
                     splitLoop alnum text (current + size) False alphanumericStart
                       (output1 @ [unit]))))
     else if inAlphanumeric \<and> current \<noteq> 0 then
       (case slice text alphanumericStart current of
          Inl e \<Rightarrow> Inl e
        | Inr run \<Rightarrow> Inr (output @ [toLower run]))
     else Inr output)"
  by pat_completeness auto
termination
  by (relation "measure (\<lambda>(alnum, text, current, inA, start, output). length text - current)")
     (auto simp: slice_def splitLoop_measure splitLoop_measure0 split: if_splits)

declare splitLoop.simps [simp del]

definition splitTextToWords :: "(int \<Rightarrow> bool) \<Rightarrow> Text \<Rightarrow> error + Text list" where
  "splitTextToWords alnum text = splitLoop alnum text 0 True 0 []"

text \<open>
  The code points of a text, as the loop of \<open>splitTextToWords\<close> decodes them:
  \<open>runeStarts text 0\<close> lists the offsets at which \<open>DecodeRune\<close> is called. An offset
  \<open>b\<close> is strictly inside a decoded code point when one of them starts before \<open>b\<close>
  and ends after it.
\<close>

function runeStarts :: "Text \<Rightarrow> nat \<Rightarrow> nat list" where
  "runeStarts text current =
    (if current < length text
     then current # runeStarts text (current + snd (DecodeRune (drop current text)))
     else [])"
  by pat_completeness auto
termination
  by (relation "measure (\<lambda>(text, current). length text - current)")
     (auto simp: splitLoop_measure splitLoop_measure0)

declare runeStarts.simps [simp del]

definition insideRune :: "Text \<Rightarrow> nat \<Rightarrow> bool" where
  "insideRune text b =
    list_ex (\<lambda>s. s < b \<and> b < s + snd (DecodeRune (drop s text))) (runeStarts text 0)"

text \<open>
  The ASCII letters and digits. On the runes below \<open>0x80\<close> this is what
  \<open>unicode.IsLetter(r) || unicode.IsNumber(r)\<close> computes; it instantiates \<open>alnum\<close> in the
  concrete runs below, whose other runes are encoded in three bytes or are \<open>RuneError\<close>.
\<close>

definition asciiAlnum :: "int \<Rightarrow> bool" where
  "asciiAlnum r = ((0x30 \<le> r \<and> r \<le> 0x39) \<or> (0x41 \<le> r \<and> r \<le> 0x5A) \<or> (0x61 \<le> r \<and> r \<le> 0x7A))"

text \<open>The offsets at which a sequence of units begins or ends.\<close>

definition unitBounds :: "Text list \<Rightarrow> nat set" where
  "unitBounds units = (\<lambda>k. length (concat (take k units))) ` {..length units}"


section \<open>Floating point\<close>

text \<open>
  Path costs are \<open>float32\<close> values. Their arithmetic is not fixed here: the operations the
  program applies to them are the fields of a record, and every theorem below holds for
  each choice of them. \<open>flit n\<close> is the \<open>float32\<close> value of the integer constant \<open>n\<close> (the
  source uses \<open>0\<close> and \<open>32\<close>), \<open>fadd\<close> and \<open>fsub\<close> are \<open>+\<close> and \<open>-\<close>, \<open>fgt\<close> and \<open>feq\<close> are
  \<open>>\<close> and \<open>==\<close>, and \<open>flog2 n\<close> is \<open>float32(math.Log2(float64(n)))\<close>.
\<close>

record 'f Float32 =
  flit :: "int \<Rightarrow> 'f"
  fadd :: "'f \<Rightarrow> 'f \<Rightarrow> 'f"
  fsub :: "'f \<Rightarrow> 'f \<Rightarrow> 'f"
  fgt :: "'f \<Rightarrow> 'f \<Rightarrow> bool"
  feq :: "'f \<Rightarrow> 'f \<Rightarrow> bool"
  flog2 :: "int \<Rightarrow> 'f"

text \<open>
  An instance for concrete runs: integers, with the logarithm rounded down. It computes what
  \<open>float32\<close> computes as long as every frequency and the total frequency are powers of two.
\<close>

function floorLog2 :: "int \<Rightarrow> int" where
  "floorLog2 n = (if n < 2 then 0 else 1 + floorLog2 (n div 2))"
  by pat_completeness auto
termination
  by (relation "measure nat") auto

definition exactFloat :: "int Float32" where
  "exactFloat = \<lparr>flit = (\<lambda>n. n), fadd = (+), fsub = (-), fgt = (>), feq = (=), flog2 = floorLog2\<rparr>"

section \<open>Tokens, segments and the dictionary\<close>

text \<open>
  Modelled from the spec: the structs \<open>Token\<close> and \<open>Segment\<close>, which are declared outside
  \<open>segmenter.go\<close>. Their fields are the ones that \<open>segmenter.go\<close> reads and writes and that
  the spec gives to a term (its units, its frequency, its cost, its tag and its
  sub-segments) and to a segment (its byte offsets and its term). The fields \<open>text\<close> and
  \<open>end\<close> are written \<open>text'\<close> and \<open>end'\<close>. A \<open>*Token\<close> is the value it points to, or \<open>None\<close>
  for \<open>nil\<close>; the \<open>segments\<close> of a token reached through a segment are therefore the ones
  it had when the segment was built. A Go \<open>string\<close> is its bytes.
\<close>

datatype 'f Token =
  Token (text': "Text list") (frequency: int) (distance: 'f) (pos: Text) (segments: "'f Segment list")
and 'f Segment =
  Segment (start: nat) (end': nat) (token: "'f Token option")

text \<open>
  Modelled from the spec: the type \<open>Dictionary\<close>, which is declared outside \<open>segmenter.go\<close>.
  It is the full set of terms, here in the order in which they were added, the sum
  \<open>totalFrequency\<close> of their frequencies and the length \<open>maxTokenLength\<close>, in units, of the
  longest term.
\<close>

record 'f Dictionary =
  tokens :: "'f Token list"
  totalFrequency :: int
  maxTokenLength :: nat

text \<open>
  Modelled from the spec: \<open>NewDictionary\<close>, which \<open>segmenter.go\<close> calls and does not define.
  A dictionary is built from no term.
\<close>

definition NewDictionary :: "'f Dictionary" where
  "NewDictionary = \<lparr>tokens = [], totalFrequency = 0, maxTokenLength = 0\<rparr>"

text \<open>
  Modelled from the spec: \<open>addToken\<close>, which \<open>segmenter.go\<close> calls and does not define. It
  stores the term, accumulates \<open>totalFrequency\<close> and tracks \<open>maxTokenLength\<close>.
\<close>

definition addToken :: "'f Dictionary \<Rightarrow> 'f Token \<Rightarrow> 'f Dictionary" where
  "addToken d tok =
    \<lparr>tokens = tokens d @ [tok],
     totalFrequency = totalFrequency d + frequency tok,
     maxTokenLength = max (maxTokenLength d) (length (text' tok))\<rparr>"

text \<open>
  Modelled from the spec: \<open>lookupTokens\<close>, which \<open>segmenter.go\<close> calls and does not define. It
  returns the terms whose whole text is a prefix of the given units, by ascending text
  length. The source passes a buffer and receives the number of matches; that number is
  the length of the list returned here, and the buffer is not modelled.
\<close>

definition lookupTokens :: "'f Dictionary \<Rightarrow> Text list \<Rightarrow> 'f Token list" where
  "lookupTokens d words =
    concat (map (\<lambda>k. filter (\<lambda>t. text' t = take k words) (tokens d)) [0..<Suc (length words)])"

text \<open>
  Modelled from the spec: \<open>textSliceByteLength\<close>, which \<open>segmenter.go\<close> calls and does not
  define. It is the total byte length of a sequence of units.
\<close>

definition textSliceByteLength :: "Text list \<Rightarrow> nat" where
  "textSliceByteLength words = sum_list (map length words)"

text \<open>The struct \<open>Segmenter\<close>; its field is \<open>nil\<close> until a dictionary is loaded.\<close>

record 'f Segmenter =
  dict :: "'f Dictionary option"

section \<open>The segmenter\<close>

text \<open>The struct \<open>jumper\<close>; its field \<open>token\<close> is written \<open>jtoken\<close>, beside the one of \<open>Segment\<close>.\<close>

record 'f jumper =
  minDistance :: 'f
  jtoken :: "'f Token option"

text \<open>An index expression \<open>xs[i]\<close>, which panics outside \<open>0 \<le> i < len(xs)\<close>.\<close>

definition index :: "'a list \<Rightarrow> int \<Rightarrow> error + 'a" where
  "index xs i = (if 0 \<le> i \<and> i < int (length xs) then Inr (xs ! nat i) else Inl IndexOutOfRange)"

definition minInt :: "nat \<Rightarrow> nat \<Rightarrow> nat" where
  "minInt a b = (if a > b then b else a)"

definition updateJumper :: "'f Float32 \<Rightarrow> 'f jumper \<Rightarrow> 'f \<Rightarrow> 'f Token \<Rightarrow> 'f jumper" where
  "updateJumper F jumper baseDistance tok =
    (let newDistance = fadd F baseDistance (distance tok) in
     if feq F (minDistance jumper) (flit F 0) \<or> fgt F (minDistance jumper) newDistance
     then \<lparr>minDistance = newDistance, jtoken = Some tok\<rparr>
     else jumper)"

text \<open>\<open>updateJumper(&jumpers[location], ...)\<close>: the cell is indexed, then updated in place.\<close>

definition updateJumperAt ::
  "'f Float32 \<Rightarrow> 'f jumper list \<Rightarrow> int \<Rightarrow> 'f \<Rightarrow> 'f Token \<Rightarrow> error + 'f jumper list" where
  "updateJumperAt F jumpers location baseDistance tok =
    (case index jumpers location of
       Inl e \<Rightarrow> Inl e
     | Inr jumper \<Rightarrow> Inr (jumpers[nat location := updateJumper F jumper baseDistance tok]))"

text \<open>
  The loop over the tokens found at \<open>current\<close> (lines 169 to 174): \<open>n\<close> is \<open>len(text)\<close>, and the
  list holds \<open>tokens[iToken]\<close> for the remaining \<open>iToken\<close>.
\<close>

fun updateTokens ::
  "'f Float32 \<Rightarrow> nat \<Rightarrow> bool \<Rightarrow> nat \<Rightarrow> 'f \<Rightarrow> 'f Token list \<Rightarrow> 'f jumper list \<Rightarrow> error + 'f jumper list" where
  "updateTokens F n searchMode current baseDistance [] jumpers = Inr jumpers"
| "updateTokens F n searchMode current baseDistance (tok # toks) jumpers =
    (let location = int current + int (length (text' tok)) - 1 in
     if \<not> searchMode \<or> current \<noteq> 0 \<or> location \<noteq> int n - 1 then
       (case updateJumperAt F jumpers location baseDistance tok of
          Inl e \<Rightarrow> Inl e
        | Inr jumpers' \<Rightarrow> updateTokens F n searchMode current baseDistance toks jumpers')
     else updateTokens F n searchMode current baseDistance toks jumpers)"

text \<open>The pseudo token of line 179, and the test of line 177 that adds it.\<close>

definition pseudoToken :: "'f Float32 \<Rightarrow> Text \<Rightarrow> 'f Token" where
  "pseudoToken F word = Token [word] 1 (flit F 32) [0x78] []"

definition needsPseudoToken :: "'f Token list \<Rightarrow> bool" where
  "needsPseudoToken toks = (length toks = 0 \<or> length (text' (toks ! 0)) > 1)"

text \<open>One iteration of the forward loop (lines 155 to 180), at the position \<open>current\<close>.\<close>

definition forwardStep ::
  "'f Float32 \<Rightarrow> 'f Dictionary \<Rightarrow> Text list \<Rightarrow> bool \<Rightarrow> nat \<Rightarrow> 'f jumper list \<Rightarrow> error + 'f jumper list" where
  "forwardStep F d words searchMode current jumpers =
    (case (if current = 0 then Inr (flit F 0)
           else map_sum id minDistance (index jumpers (int current - 1))) of
       Inl e \<Rightarrow> Inl e
     | Inr baseDistance \<Rightarrow>
        (case slice words current (minInt (current + maxTokenLength d) (length words)) of
           Inl e \<Rightarrow> Inl e
         | Inr window \<Rightarrow>
            let toks = lookupTokens d window in
            (case updateTokens F (length words) searchMode current baseDistance toks jumpers of
               Inl e \<Rightarrow> Inl e
             | Inr jumpers' \<Rightarrow>
                if needsPseudoToken toks then
                  (case index words (int current) of
                     Inl e \<Rightarrow> Inl e
                   | Inr word \<Rightarrow>
                      updateJumperAt F jumpers' (int current) baseDistance (pseudoToken F word))
                else Inr jumpers')))"

function forward ::
  "'f Float32 \<Rightarrow> 'f Dictionary \<Rightarrow> Text list \<Rightarrow> bool \<Rightarrow> nat \<Rightarrow> 'f jumper list \<Rightarrow> error + 'f jumper list" where
  "forward F d words searchMode current jumpers =
    (if current < length words then
       (case forwardStep F d words searchMode current jumpers of
          Inl e \<Rightarrow> Inl e
        | Inr jumpers' \<Rightarrow> forward F d words searchMode (current + 1) jumpers')
     else Inr jumpers)"
  by pat_completeness auto
termination
  by (relation "measure (\<lambda>(F, d, words, searchMode, current, jumpers). length words - current)") auto

declare forward.simps [simp del]

text \<open>
  The two backward scans (lines 184 to 198). Nothing in the loops bounds the number of their
  iterations, so they are partial functions: \<open>None\<close> is a scan that does not return.
\<close>

partial_function (option) countSegments ::
  "'f jumper list \<Rightarrow> int \<Rightarrow> nat \<Rightarrow> (error + nat) option" where
  "countSegments jumpers idx numSeg =
    (if idx \<ge> 0 then
       (case index jumpers idx of
          Inl e \<Rightarrow> Some (Inl e)
        | Inr jumper \<Rightarrow>
           (case jtoken jumper of
              None \<Rightarrow> Some (Inl NilDereference)
            | Some tok \<Rightarrow>
               let location = idx - int (length (text' tok)) + 1 in
               countSegments jumpers (location - 1) (numSeg + 1)))
     else Some (Inr numSeg))"

partial_function (option) fillSegments ::
  "'f jumper list \<Rightarrow> int \<Rightarrow> int \<Rightarrow> 'f Segment list \<Rightarrow> (error + 'f Segment list) option" where
  "fillSegments jumpers idx numSeg outputSegments =
    (if idx \<ge> 0 then
       (case index jumpers idx of
          Inl e \<Rightarrow> Some (Inl e)
        | Inr jumper \<Rightarrow>
           (case jtoken jumper of
              None \<Rightarrow> Some (Inl NilDereference)
            | Some tok \<Rightarrow>
               let location = idx - int (length (text' tok)) + 1 in
               (case index outputSegments (numSeg - 1) of
                  Inl e \<Rightarrow> Some (Inl e)
                | Inr seg \<Rightarrow>
                   fillSegments jumpers (location - 1) (numSeg - 1)
                     (outputSegments[nat (numSeg - 1) := Segment (start seg) (end' seg) (jtoken jumper)]))))
     else Some (Inr outputSegments))"

declare countSegments.simps [code]
declare fillSegments.simps [code]

text \<open>The byte positions (lines 201 to 206).\<close>

fun bytePositions :: "nat \<Rightarrow> 'f Segment list \<Rightarrow> error + 'f Segment list" where
  "bytePositions bytePosition [] = Inr []"
| "bytePositions bytePosition (seg # segs) =
    (case token seg of
       None \<Rightarrow> Inl NilDereference
     | Some tok \<Rightarrow>
        let bytePosition' = bytePosition + textSliceByteLength (text' tok) in
        (case bytePositions bytePosition' segs of
           Inl e \<Rightarrow> Inl e
         | Inr segs' \<Rightarrow> Inr (Segment bytePosition bytePosition' (token seg) # segs')))"

definition segmentWords ::
  "'f Float32 \<Rightarrow> 'f Segmenter \<Rightarrow> Text list \<Rightarrow> bool \<Rightarrow> (error + 'f Segment list) option" where
  "segmentWords F seg words searchMode =
    (if searchMode \<and> length words = 1 then Some (Inr [])
     else
       (case dict seg of
          None \<Rightarrow> Some (Inl NilDereference)
        | Some d \<Rightarrow>
           (case forward F d words searchMode 0
                   (replicate (length words) \<lparr>minDistance = flit F 0, jtoken = None\<rparr>) of
              Inl e \<Rightarrow> Some (Inl e)
            | Inr jumpers \<Rightarrow>
               (case countSegments jumpers (int (length words) - 1) 0 of
                  None \<Rightarrow> None
                | Some (Inl e) \<Rightarrow> Some (Inl e)
                | Some (Inr numSeg) \<Rightarrow>
                   (case fillSegments jumpers (int (length words) - 1) (int numSeg)
                           (replicate numSeg (Segment 0 0 None)) of
                      None \<Rightarrow> None
                    | Some (Inl e) \<Rightarrow> Some (Inl e)
                    | Some (Inr outputSegments) \<Rightarrow> Some (bytePositions 0 outputSegments))))))"

definition internalSegment ::
  "'f Float32 \<Rightarrow> (int \<Rightarrow> bool) \<Rightarrow> 'f Segmenter \<Rightarrow> Text \<Rightarrow> bool \<Rightarrow> (error + 'f Segment list) option" where
  "internalSegment F alnum seg bytes searchMode =
    (if length bytes = 0 then Some (Inr [])
     else
       (case splitTextToWords alnum bytes of
          Inl e \<Rightarrow> Some (Inl e)
        | Inr words \<Rightarrow> segmentWords F seg words searchMode))"

text \<open>The methods \<open>Segment\<close>, written \<open>Segment'\<close> beside the struct of that name, and \<open>InternalSegment\<close>.\<close>

definition Segment' ::
  "'f Float32 \<Rightarrow> (int \<Rightarrow> bool) \<Rightarrow> 'f Segmenter \<Rightarrow> Text \<Rightarrow> (error + 'f Segment list) option" where
  "Segment' F alnum seg bytes = internalSegment F alnum seg bytes False"

definition InternalSegment ::
  "'f Float32 \<Rightarrow> (int \<Rightarrow> bool) \<Rightarrow> 'f Segmenter \<Rightarrow> Text \<Rightarrow> bool \<Rightarrow> (error + 'f Segment list) option" where
  "InternalSegment F alnum seg bytes searchMode = internalSegment F alnum seg bytes searchMode"

section \<open>Loading the dictionary\<close>

text \<open>
  \<open>reader.ReadString('\n')\<close> on what is left of the content: the bytes up to and including
  the first newline and the rest, or, when there is no newline, all the bytes together with
  the error \<open>io.EOF\<close> (\<open>True\<close> in the third component).
\<close>

fun ReadString :: "Text \<Rightarrow> Text \<times> Text \<times> bool" where
  "ReadString [] = ([], [], True)"
| "ReadString (b # bs) =
    (if b = 0x0A then ([b], bs, False)
     else (case ReadString bs of (line, rest, err) \<Rightarrow> (b # line, rest, err)))"

text \<open>
  \<open>strings.Fields\<close> of the standard library: the maximal runs of code points that are not
  white space by \<open>unicode.IsSpace\<close>, found by the loop of \<open>strings.FieldsFunc\<close> over the
  decoded code points (the library's shortcut for ASCII strings returns the same fields).
\<close>

definition IsSpace :: "int \<Rightarrow> bool" where
  "IsSpace r =
    ((0x09 \<le> r \<and> r \<le> 0x0D) \<or> r = 0x20 \<or> r = 0x85 \<or> r = 0xA0 \<or> r = 0x1680
     \<or> (0x2000 \<le> r \<and> r \<le> 0x200A) \<or> r = 0x2028 \<or> r = 0x2029 \<or> r = 0x202F
     \<or> r = 0x205F \<or> r = 0x3000)"

function fieldsLoop :: "Text \<Rightarrow> nat \<Rightarrow> nat option \<Rightarrow> Text list \<Rightarrow> Text list" where
  "fieldsLoop s pos0 fieldStart spans =
    (if pos0 < length s then
       let r = fst (DecodeRune (drop pos0 s)); size = snd (DecodeRune (drop pos0 s)) in
       if IsSpace r then
         (case fieldStart of
            Some b \<Rightarrow> fieldsLoop s (pos0 + size) None (spans @ [take (pos0 - b) (drop b s)])
          | None \<Rightarrow> fieldsLoop s (pos0 + size) None spans)
       else
         (case fieldStart of
            Some b \<Rightarrow> fieldsLoop s (pos0 + size) (Some b) spans
          | None \<Rightarrow> fieldsLoop s (pos0 + size) (Some pos0) spans)
     else
       (case fieldStart of
          Some b \<Rightarrow> spans @ [take (length s - b) (drop b s)]
        | None \<Rightarrow> spans))"
  by pat_completeness auto
termination
  by (relation "measure (\<lambda>(s, pos0, fieldStart, spans). length s - pos0)")
     (auto simp: splitLoop_measure splitLoop_measure0)

declare fieldsLoop.simps [simp del]

definition Fields :: "Text \<Rightarrow> Text list" where
  "Fields s = fieldsLoop s 0 None []"

text \<open>
  \<open>strconv.Atoi\<close> of the standard library, where \<open>int\<close> has 64 bits: an optional sign and
  then one or more decimal digits. Anything else is a syntax error and a value outside
  \<open>int64\<close> is a range error; both are \<open>None\<close>.
\<close>

fun parseDigits :: "Text \<Rightarrow> int \<Rightarrow> int option" where
  "parseDigits [] n = Some n"
| "parseDigits (ch # s) n =
    (if 0x30 \<le> ch \<and> ch \<le> 0x39 then parseDigits s (n * 10 + (uint ch - 0x30)) else None)"

definition Atoi :: "Text \<Rightarrow> int option" where
  "Atoi s =
    (case s of
       [] \<Rightarrow> None
     | c # cs \<Rightarrow>
        let neg = (c = 0x2D); digits = (if c = 0x2D \<or> c = 0x2B then cs else s) in
        if digits = [] then None
        else
          (case parseDigits digits 0 of
             None \<Rightarrow> None
           | Some n \<Rightarrow>
              let v = (if neg then - n else n) in
              if - (2 ^ 63) \<le> v \<and> v \<le> 2 ^ 63 - 1 then Some v else None))"

definition minTokenFrequency :: int where
  "minTokenFrequency = 2"

text \<open>
  The reading loop of \<open>LoadDictionary\<close> (lines 48 to 73). The reader is the content not yet
  read; \<open>d\<close> is \<open>seg.dict\<close>. A \<open>continue\<close> of the source is a recursive call with \<open>d\<close>
  unchanged.
\<close>

lemma ReadString_length:
  "ReadString s = (line, rest, err) \<Longrightarrow> length line + length rest = length s"
  by (induction s arbitrary: line rest err) (auto split: if_splits prod.splits)

lemma ReadString_line:
  "ReadString s = (line, rest, False) \<Longrightarrow> line \<noteq> []"
  by (induction s arbitrary: line rest) (auto split: if_splits prod.splits)

lemma ReadString_shorter:
  assumes "(line, rest, err) = ReadString s" "\<not> (err \<and> length line = 0)"
  shows "length rest < length s"
proof -
  from assms have "line \<noteq> []"
    using ReadString_line [of s line rest] by (cases err) auto
  then show ?thesis
    using ReadString_length [of s line rest err] assms(1) by (cases line) auto
qed

function readRecords ::
  "'f Float32 \<Rightarrow> (int \<Rightarrow> bool) \<Rightarrow> Text \<Rightarrow> 'f Dictionary \<Rightarrow> error + 'f Dictionary" where
  "readRecords F alnum reader d =
    (case ReadString reader of
       (line, rest, err) \<Rightarrow>
        if err \<and> length line = 0 then Inr d
        else
          let fields = Fields line in
          if length fields < 2 then readRecords F alnum rest d
          else
            let txt0 = fields ! 0; freqText = fields ! 1;
                pos0 = (if length fields \<ge> 3 then fields ! 2 else [])
            in
            (case Atoi freqText of
               None \<Rightarrow> readRecords F alnum rest d
             | Some frequency0 \<Rightarrow>
                if frequency0 < minTokenFrequency then readRecords F alnum rest d
                else
                  (case splitTextToWords alnum txt0 of
                     Inl e \<Rightarrow> Inl e
                   | Inr words \<Rightarrow>
                      readRecords F alnum rest
                        (addToken d (Token words frequency0 (flit F 0) pos0 []))))) "
  by pat_completeness auto
termination
  by (relation "measure (\<lambda>(F, alnum, reader, d). length reader)")
     (auto intro: ReadString_shorter)

declare readRecords.simps [simp del]

text \<open>The path values (lines 76 to 80).\<close>

definition setDistance :: "'f Token \<Rightarrow> 'f \<Rightarrow> 'f Token" where
  "setDistance tok x = Token (text' tok) (frequency tok) x (pos tok) (segments tok)"

definition assignDistances :: "'f Float32 \<Rightarrow> 'f Dictionary \<Rightarrow> 'f Dictionary" where
  "assignDistances F d =
    (let logTotalFrequency = flog2 F (totalFrequency d) in
     d\<lparr>tokens := map (\<lambda>tok. setDistance tok (fsub F logTotalFrequency (flog2 F (frequency tok))))
                     (tokens d)\<rparr>)"

text \<open>
  The sub-segments (lines 83 to 102). The two loops over \<open>segments\<close> count and then copy the
  segments whose token has a text; each reads \<open>segments[iToken].token.text\<close>.
\<close>

fun keepSegments :: "'f Segment list \<Rightarrow> error + 'f Segment list" where
  "keepSegments [] = Inr []"
| "keepSegments (s # segs) =
    (case token s of
       None \<Rightarrow> Inl NilDereference
     | Some tok \<Rightarrow>
        (case keepSegments segs of
           Inl e \<Rightarrow> Inl e
         | Inr kept \<Rightarrow> Inr (if length (text' tok) > 0 then s # kept else kept)))"

definition setSegments :: "'f Token \<Rightarrow> 'f Segment list \<Rightarrow> 'f Token" where
  "setSegments tok segs = Token (text' tok) (frequency tok) (distance tok) (pos tok) segs"

function buildSegments ::
  "'f Float32 \<Rightarrow> 'f Dictionary \<Rightarrow> nat \<Rightarrow> (error + 'f Dictionary) option" where
  "buildSegments F d i =
    (if i < length (tokens d) then
       (case segmentWords F \<lparr>dict = Some d\<rparr> (text' (tokens d ! i)) True of
          None \<Rightarrow> None
        | Some (Inl e) \<Rightarrow> Some (Inl e)
        | Some (Inr segs) \<Rightarrow>
           (case keepSegments segs of
              Inl e \<Rightarrow> Some (Inl e)
            | Inr kept \<Rightarrow>
               buildSegments F (d\<lparr>tokens := (tokens d)[i := setSegments (tokens d ! i) kept]\<rparr>) (i + 1)))
     else Some (Inr d))"
  by pat_completeness auto
termination
  by (relation "measure (\<lambda>(F, d, i). length (tokens d) - i)") auto

declare buildSegments.simps [simp del]

text \<open>
  \<open>LoadDictionary\<close> replaces the dictionary of the segmenter; what it returns here is the
  segmenter it leaves behind. The log line is not modelled.
\<close>

definition LoadDictionary ::
  "'f Float32 \<Rightarrow> (int \<Rightarrow> bool) \<Rightarrow> Text \<Rightarrow> (error + 'f Segmenter) option" where
  "LoadDictionary F alnum content =
    (case readRecords F alnum content NewDictionary of
       Inl e \<Rightarrow> Some (Inl e)
     | Inr d \<Rightarrow>
        (case buildSegments F (assignDistances F d) 0 of
           None \<Rightarrow> None
         | Some (Inl e) \<Rightarrow> Some (Inl e)
         | Some (Inr d') \<Rightarrow> Some (Inr \<lparr>dict = Some d'\<rparr>)))"

section \<open>Vocabulary of the properties\<close>

definition wfDictionary :: "'f Dictionary \<Rightarrow> bool" where
  "wfDictionary d = list_all (\<lambda>t. text' t \<noteq> []) (tokens d)"

text \<open>
  A token that may stand in the cell \<open>i\<close> of the \<open>n\<close> cells over \<open>words\<close>: its text is not
  empty and is the units that end at \<open>i\<close>; in search mode the token of the last cell does
  not span all the units.
\<close>

definition fits :: "Text list \<Rightarrow> bool \<Rightarrow> nat \<Rightarrow> 'f Token \<Rightarrow> bool" where
  "fits words searchMode i t =
    (let len = length (text' t) in
     1 \<le> len \<and> len \<le> i + 1 \<and> text' t = take len (drop (i + 1 - len) words)
     \<and> (searchMode \<and> i + 1 = length words \<longrightarrow> len < length words))"

definition cellOK :: "Text list \<Rightarrow> bool \<Rightarrow> nat \<Rightarrow> 'f jumper \<Rightarrow> bool" where
  "cellOK words searchMode i j = (case jtoken j of None \<Rightarrow> False | Some t \<Rightarrow> fits words searchMode i t)"

definition cellFresh :: "'f Float32 \<Rightarrow> 'f jumper \<Rightarrow> bool" where
  "cellFresh F j = (jtoken j = None \<and> minDistance j = flit F 0)"

text \<open>The cells before \<open>c\<close> hold fitting tokens, the others do or are untouched.\<close>

definition cellsInv :: "'f Float32 \<Rightarrow> Text list \<Rightarrow> bool \<Rightarrow> nat \<Rightarrow> 'f jumper list \<Rightarrow> bool" where
  "cellsInv F words searchMode c jumpers =
    (length jumpers = length words
     \<and> (\<forall>i<length words. cellOK words searchMode i (jumpers ! i)
            \<or> (c \<le> i \<and> cellFresh F (jumpers ! i))))"

text \<open>A token found by the lookup at \<open>c\<close>: its text is the units that begin at \<open>c\<close>.\<close>

definition matchesAt :: "Text list \<Rightarrow> nat \<Rightarrow> 'f Token \<Rightarrow> bool" where
  "matchesAt words c t =
    (1 \<le> length (text' t) \<and> c + length (text' t) \<le> length words
     \<and> text' t = take (length (text' t)) (drop c words))"

text \<open>
  The tokens that the backward scans meet when they start below the unit \<open>m\<close>, in the order
  of the text.
\<close>

function backTokens :: "'f jumper list \<Rightarrow> nat \<Rightarrow> 'f Token list" where
  "backTokens jumpers m =
    (if m = 0 then []
     else
       (case jtoken (jumpers ! (m - 1)) of
          None \<Rightarrow> []
        | Some t \<Rightarrow>
           if 1 \<le> length (text' t) then backTokens jumpers (m - length (text' t)) @ [t] else []))"
  by pat_completeness auto
termination
  by (relation "measure (\<lambda>(jumpers, m). m)") auto

declare backTokens.simps [simp del]

definition allOK :: "Text list \<Rightarrow> bool \<Rightarrow> 'f jumper list \<Rightarrow> bool" where
  "allOK words sm jumpers =
    (length jumpers = length words \<and> (\<forall>i<length words. cellOK words sm i (jumpers ! i)))"

text \<open>The segments laid out from the byte position \<open>p\<close>.\<close>

fun layout :: "nat \<Rightarrow> 'f Token list \<Rightarrow> 'f Segment list" where
  "layout p [] = []"
| "layout p (t # ts) =
    Segment p (p + textSliceByteLength (text' t)) (Some t)
      # layout (p + textSliceByteLength (text' t)) ts"


text \<open>
  The record lines of a dictionary text, as the reader yields them: each ends with its
  newline, except a last line that has none.
\<close>

function recordLines :: "Text \<Rightarrow> Text list" where
  "recordLines reader =
    (case ReadString reader of
       (line, rest, err) \<Rightarrow> if err \<and> length line = 0 then [] else line # recordLines rest)"
  by pat_completeness auto
termination
  by (relation "measure length") (auto intro: ReadString_shorter)

declare recordLines.simps [simp del]

text \<open>
  What the specification says of one record line: when it is discarded, and the term that
  is stored for it otherwise (its units, its frequency and its part-of-speech tag).
\<close>

definition discarded :: "Text \<Rightarrow> bool" where
  "discarded line =
    (length (Fields line) < 2
     \<or> (case Atoi (Fields line ! 1) of None \<Rightarrow> True | Some n \<Rightarrow> n < 2))"

definition recordTerm :: "(int \<Rightarrow> bool) \<Rightarrow> Text \<Rightarrow> (error + Text list) \<times> int \<times> Text" where
  "recordTerm alnum line =
    (splitTextToWords alnum (Fields line ! 0),
     the (Atoi (Fields line ! 1)),
     if 3 \<le> length (Fields line) then Fields line ! 2 else [])"

definition termOf :: "'f Token \<Rightarrow> (error + Text list) \<times> int \<times> Text" where
  "termOf t = (Inr (text' t), frequency t, pos t)"

text \<open>The sub-segment pass leaves the other fields of every token alone.\<close>

definition sameTerms :: "'f Token list \<Rightarrow> 'f Token list \<Rightarrow> bool" where
  "sameTerms xs ys =
    (map text' xs = map text' ys \<and> map frequency xs = map frequency ys
     \<and> map distance xs = map distance ys \<and> map pos xs = map pos ys)"

text \<open>
  A dictionary text for the concrete runs, and the dictionary loaded from it. Its six lines
  are a term of two units with the tag \<open>n\<close>, a term of one unit, a line with one field, a
  record whose frequency 1 is below the threshold, a record whose frequency is not a number,
  and a term of one unit whose line has a tab and no final newline. The frequencies kept
  are 4, 2 and 2, so the distances are exact.
\<close>

definition zhong :: Text where
  "zhong = [0xE4, 0xB8, 0xAD]"

definition guo :: Text where
  "guo = [0xE5, 0x9B, 0xBD]"


definition exampleDictionary :: "int Dictionary" where
  "exampleDictionary =
    \<lparr>tokens =
       [Token [zhong, guo] 4 1 [0x6E]
          [Segment 0 3 (Some (Token [zhong] 2 2 [] [])), Segment 3 6 (Some (Token [guo] 2 2 [] []))],
        Token [zhong] 2 2 [] [],
        Token [guo] 2 2 [] []],
     totalFrequency = 8, maxTokenLength = 2\<rparr>"

definition zeroCostContent :: Text where
  "zeroCostContent = zhong @ guo @ [0x20, 0x34, 0x0A]"

definition zeroCostDictionary :: "int Dictionary" where
  "zeroCostDictionary =
    \<lparr>tokens =
       [Token [zhong, guo] 4 0 []
          [Segment 0 3 (Some (Token [zhong] 1 32 [0x78] [])),
           Segment 3 6 (Some (Token [guo] 1 32 [0x78] []))]],
     totalFrequency = 4, maxTokenLength = 2\<rparr>"

section \<open>Properties of the unit splitter\<close>


lemma unat_toLowerByte:
  "unat (toLowerByte t) = (if 65 \<le> unat t \<and> unat t \<le> 90 then unat t + 32 else unat t)"
  by (simp add: toLowerByte_def word_le_nat_alt unat_word_ariths)

lemma toLowerByte_idem: "toLowerByte (toLowerByte t) = toLowerByte t"
  by (rule word_unat_eq_iff [THEN iffD2]) (simp add: unat_toLowerByte)

lemma toLowerByte_high: "0x80 \<le> t \<Longrightarrow> toLowerByte t = t"
  by (rule word_unat_eq_iff [THEN iffD2]) (simp add: unat_toLowerByte word_le_nat_alt)

lemma toLowerByte_less: "0x80 \<le> lo \<Longrightarrow> toLowerByte t < lo \<longleftrightarrow> t < lo"
  by (simp add: unat_toLowerByte word_less_nat_alt word_le_nat_alt)

lemma toLowerByte_greater: "0x80 \<le> hi \<Longrightarrow> hi < toLowerByte t \<longleftrightarrow> hi < t"
  by (simp add: unat_toLowerByte word_less_nat_alt word_le_nat_alt)

lemma toLowerByte_cont: "\<not> t < lo \<Longrightarrow> 0x80 \<le> lo \<Longrightarrow> toLowerByte t = t"
  by (rule word_unat_eq_iff [THEN iffD2]) (simp add: unat_toLowerByte word_less_nat_alt word_le_nat_alt)

lemma decodeMulti_toLower:
  assumes "0x80 \<le> lo" "0x80 \<le> hi" "0x80 \<le> p0"
  shows "decodeMulti sz lo hi (toLower (p0 # ps)) = decodeMulti sz lo hi (p0 # ps)"
proof -
  have p0: "toLowerByte p0 = p0" using assms by (simp add: toLowerByte_high)
  have b: "\<And>b. toLowerByte b < lo \<longleftrightarrow> b < lo" "\<And>b. hi < toLowerByte b \<longleftrightarrow> hi < b"
       "\<And>b. toLowerByte b < 0x80 \<longleftrightarrow> b < 0x80" "\<And>b. 0xBF < toLowerByte b \<longleftrightarrow> 0xBF < b"
    using assms by (simp_all add: toLowerByte_less toLowerByte_greater)
  have c: "\<And>b. \<not> b < lo \<Longrightarrow> toLowerByte b = b" "\<And>b. \<not> b < 0x80 \<Longrightarrow> toLowerByte b = b"
    using assms by (simp_all add: toLowerByte_cont)
  consider "ps = []" | b1 where "ps = [b1]" | b1 b2 where "ps = [b1, b2]"
    | b1 b2 b3 r where "ps = b1 # b2 # b3 # r"
    by (cases ps; cases "tl ps"; cases "tl (tl ps)"; auto)
  then show ?thesis
  proof cases
    case 1
    then show ?thesis by (simp add: decodeMulti_def Let_def toLower_def p0)
  next
    case 2
    then show ?thesis by (simp add: decodeMulti_def Let_def toLower_def p0 b c)
  next
    case 3
    then show ?thesis by (simp add: decodeMulti_def Let_def toLower_def p0 b c)
  next
    case 4
    then show ?thesis by (simp add: decodeMulti_def Let_def toLower_def p0 b c)
  qed
qed

lemma acceptLo_high: "0x80 \<le> acceptLo p0"
  by (simp add: acceptLo_def)

lemma acceptHi_high: "0x80 \<le> acceptHi p0"
  by (simp add: acceptHi_def)

lemma DecodeRune_toLower_high:
  assumes "0x80 \<le> p0"
  shows "DecodeRune (toLower (p0 # ps)) = DecodeRune (p0 # ps)"
proof -
  have "toLowerByte p0 = p0" using assms by (simp add: toLowerByte_high)
  then show ?thesis
    using decodeMulti_toLower [OF acceptLo_high acceptHi_high assms]
    by (simp add: DecodeRune_def toLower_def)
qed

lemma DecodeRune_toLower_ascii:
  "p0 < 0x80 \<Longrightarrow> DecodeRune (toLower (p0 # ps)) = (uint (toLowerByte p0), 1)"
  by (simp add: DecodeRune_def toLower_def unat_toLowerByte word_less_nat_alt)

lemma DecodeRune_ascii:
  "p0 < 0x80 \<Longrightarrow> DecodeRune (p0 # ps) = (uint p0, 1)"
  by (simp add: DecodeRune_def)

lemma decodeMulti_fixed:
  assumes "0x80 \<le> lo" "0x80 \<le> p0"
  shows "map toLowerByte (take (snd (decodeMulti sz lo hi (p0 # ps))) (p0 # ps))
         = take (snd (decodeMulti sz lo hi (p0 # ps))) (p0 # ps)"
proof -
  have p0: "toLowerByte p0 = p0" using assms by (simp add: toLowerByte_high)
  have c: "\<And>b. \<not> b < lo \<Longrightarrow> toLowerByte b = b" "\<And>b. \<not> b < 0x80 \<Longrightarrow> toLowerByte b = b"
    using assms by (simp_all add: toLowerByte_cont)
  consider "ps = []" | b1 where "ps = [b1]" | b1 b2 where "ps = [b1, b2]"
    | b1 b2 b3 r where "ps = b1 # b2 # b3 # r"
    by (cases ps; cases "tl ps"; cases "tl (tl ps)"; auto)
  then show ?thesis
  proof cases
    case 1
    then show ?thesis by (simp add: decodeMulti_def Let_def p0)
  next
    case 2
    then show ?thesis by (simp add: decodeMulti_def Let_def p0 c)
  next
    case 3
    then show ?thesis by (simp add: decodeMulti_def Let_def p0 c)
  next
    case 4
    then show ?thesis by (simp add: decodeMulti_def Let_def p0 c)
  qed
qed

lemma DecodeRune_high_fixed:
  assumes "0x80 \<le> p0"
  shows "map toLowerByte (take (snd (DecodeRune (p0 # ps))) (p0 # ps)) = take (snd (DecodeRune (p0 # ps))) (p0 # ps)"
proof -
  have "toLowerByte p0 = p0" using assms by (simp add: toLowerByte_high)
  then show ?thesis
    using decodeMulti_fixed [OF acceptLo_high assms] assms
    by (simp add: DecodeRune_def)
qed

lemma splitLoop_step:
  assumes "astart \<le> current" "current < length text"
  shows "splitLoop alnum text current inA astart out =
    (let rest = drop current text; r = fst (DecodeRune rest); size = snd (DecodeRune rest) in
     if size \<le> 2 \<and> alnum r
     then splitLoop alnum text (current + size) True (if inA then astart else current) out
     else splitLoop alnum text (current + size) False astart
            ((if inA \<and> current \<noteq> 0
              then out @ [toLower (take (current - astart) (drop astart text))] else out)
             @ [take size rest]))"
proof -
  define rest where "rest = drop current text"
  define size where "size = snd (DecodeRune rest)"
  have "size \<le> length text - current"
    using DecodeRune_size [of rest] assms by (simp add: rest_def size_def)
  then have s2: "slice text current (current + size) = Inr (take size rest)"
    using assms by (simp add: slice_def rest_def)
  have s1: "slice text current (length text) = Inr rest"
    using assms by (simp add: slice_def rest_def)
  have s3: "slice text astart current = Inr (take (current - astart) (drop astart text))"
    using assms by (simp add: slice_def)
  have s20: "current = 0 \<Longrightarrow> slice text 0 size = Inr (take size rest)"
    using s2 by simp
  show ?thesis
    unfolding rest_def [symmetric] Let_def size_def [symmetric]
    by (subst splitLoop.simps) (simp add: s1 s2 s20 s3 assms Let_def size_def [symmetric])
qed

lemma splitLoop_done:
  assumes "astart \<le> current" "current = length text"
  shows "splitLoop alnum text current inA astart out =
    Inr (if inA \<and> current \<noteq> 0
         then out @ [toLower (take (current - astart) (drop astart text))] else out)"
  using assms by (subst splitLoop.simps) (simp add: slice_def)

lemma runeStarts_bounds:
  "s \<in> set (runeStarts inp c) \<Longrightarrow> c \<le> s \<and> s < length inp"
proof (induction inp c rule: runeStarts.induct)
  case (1 inp current)
  then show ?case
    by (subst (asm) (2) runeStarts.simps) (auto split: if_splits)
qed

lemma rune_end_le:
  "s < length inp \<Longrightarrow> s + snd (DecodeRune (drop s inp)) \<le> length inp"
  using DecodeRune_size [of "drop s inp"] by auto

lemma runeStarts_next:
  "s \<in> set (runeStarts inp c) \<Longrightarrow>
   s + snd (DecodeRune (drop s inp)) \<in> set (runeStarts inp c) \<union> {length inp}"
proof (induction inp c rule: runeStarts.induct)
  case (1 inp current)
  let ?n = "current + snd (DecodeRune (drop current inp))"
  from "1.prems" have lt: "current < length inp"
    by (subst (asm) runeStarts.simps) (auto split: if_splits)
  then have unfold: "runeStarts inp current = current # runeStarts inp ?n"
    by (subst runeStarts.simps) simp
  show ?case
  proof (cases "s = current")
    case True
    have "?n \<le> length inp" using lt by (rule rune_end_le)
    then have "?n \<in> set (runeStarts inp ?n) \<union> {length inp}"
      by (subst runeStarts.simps) auto
    then show ?thesis using True unfold by auto
  next
    case False
    with "1.prems" unfold have "s \<in> set (runeStarts inp ?n)" by simp
    from "1.IH" [OF lt this] show ?thesis using unfold by auto
  qed
qed

lemma runeStarts_not_inside:
  "b \<in> set (runeStarts inp c) \<union> {length inp} \<Longrightarrow> s \<in> set (runeStarts inp c) \<Longrightarrow>
   \<not> (s < b \<and> b < s + snd (DecodeRune (drop s inp)))"
proof (induction inp c rule: runeStarts.induct)
  case (1 inp current)
  let ?n = "current + snd (DecodeRune (drop current inp))"
  from "1.prems"(2) have lt: "current < length inp"
    by (subst (asm) runeStarts.simps) (auto split: if_splits)
  then have unfold: "runeStarts inp current = current # runeStarts inp ?n"
    by (subst runeStarts.simps) simp
  have le: "?n \<le> length inp" using lt by (rule rune_end_le)
  show ?case
  proof (cases "s = current")
    case True
    from "1.prems"(1) unfold consider "b = current" | "b \<in> set (runeStarts inp ?n)" | "b = length inp"
      by auto
    then show ?thesis
    proof cases
      case 1 then show ?thesis using True by simp
    next
      case 2 then show ?thesis using True runeStarts_bounds [of b inp ?n] by auto
    next
      case 3 then show ?thesis using True le by auto
    qed
  next
    case False
    with "1.prems"(2) unfold have s: "s \<in> set (runeStarts inp ?n)" by simp
    show ?thesis
    proof (cases "b = current")
      case True
      then show ?thesis using runeStarts_bounds [OF s] by auto
    next
      case False
      with "1.prems"(1) unfold have "b \<in> set (runeStarts inp ?n) \<union> {length inp}" by auto
      from "1.IH" [OF lt this s] show ?thesis .
    qed
  qed
qed

lemma unitBounds_Nil: "unitBounds [] = {0}"
  by (simp add: unitBounds_def)

lemma unitBounds_snoc:
  "unitBounds (us @ [u]) = insert (length (concat us) + length u) (unitBounds us)"
proof -
  have "{..length (us @ [u])} = insert (Suc (length us)) {..length us}"
    by auto
  then show ?thesis
    by (simp add: unitBounds_def image_insert)
qed

lemma length_toLower: "length (toLower x) = length x"
  by (simp add: toLower_def)

lemma splitLoop_covers:
  assumes "astart \<le> current" "current \<le> length inp"
    and "length (concat out) = (if inA then astart else current)"
    and "current \<in> B" "inA \<longrightarrow> astart \<in> B" "unitBounds out \<subseteq> B"
    and B: "B = set (runeStarts inp 0) \<union> {length inp}"
  shows "\<exists>units. splitLoop alnum inp current inA astart out = Inr units
           \<and> length (concat units) = length inp \<and> unitBounds units \<subseteq> B"
  using assms(1-6)
proof (induction "length inp - current" arbitrary: current inA astart out rule: less_induct)
  case less
  show ?case
  proof (cases "current < length inp")
    case False
    with less.prems have eq: "current = length inp" by simp
    have "length (concat (if inA \<and> current \<noteq> 0
         then out @ [toLower (take (current - astart) (drop astart inp))] else out)) = length inp"
      using less.prems eq by (auto simp: length_toLower)
    moreover have "unitBounds (if inA \<and> current \<noteq> 0
         then out @ [toLower (take (current - astart) (drop astart inp))] else out) \<subseteq> B"
      using less.prems eq by (auto simp: length_toLower unitBounds_snoc)
    ultimately show ?thesis
      unfolding splitLoop_done [OF less.prems(1) eq] by blast
  next
    case True
    define size where "size = snd (DecodeRune (drop current inp))"
    have size: "1 \<le> size" "current + size \<le> length inp"
      using DecodeRune_size [of "drop current inp"] True by (auto simp: size_def)
    have "current \<in> set (runeStarts inp 0)"
      using less.prems(4) True by (simp add: B)
    from runeStarts_next [OF this] have next_B: "current + size \<in> B"
      by (simp add: B size_def)
    have dec: "length inp - (current + size) < length inp - current"
      using size True by arith
    show ?thesis
    proof (cases "size \<le> 2 \<and> alnum (fst (DecodeRune (drop current inp)))")
      case alnum: True
      have "\<exists>units. splitLoop alnum inp (current + size) True (if inA then astart else current) out = Inr units
           \<and> length (concat units) = length inp \<and> unitBounds units \<subseteq> B"
        using less.prems size next_B by (intro less.hyps [OF dec]) auto
      then show ?thesis
        using alnum by (simp add: splitLoop_step [OF less.prems(1) True] Let_def size_def)
    next
      case other: False
      define out1 where "out1 = (if inA \<and> current \<noteq> 0
              then out @ [toLower (take (current - astart) (drop astart inp))] else out)"
      have len1: "length (concat out1) = current"
        using less.prems True by (auto simp: out1_def length_toLower)
      have b1: "unitBounds out1 \<subseteq> B"
        using less.prems True by (auto simp: out1_def unitBounds_snoc length_toLower)
      have "\<exists>units. splitLoop alnum inp (current + size) False astart
              (out1 @ [take size (drop current inp)]) = Inr units
           \<and> length (concat units) = length inp \<and> unitBounds units \<subseteq> B"
        using less.prems size next_B len1 b1
        by (intro less.hyps [OF dec]) (auto simp: unitBounds_snoc)
      then show ?thesis
        using other
        by (auto simp: splitLoop_step [OF less.prems(1) True] Let_def size_def [symmetric] out1_def)
    qed
  qed
qed

lemma splitTextToWords_units:
  "\<exists>units. splitTextToWords alnum inp = Inr units
     \<and> length (concat units) = length inp
     \<and> (\<forall>k\<le>length units. \<not> insideRune inp (length (concat (take k units))))"
proof -
  define B where "B = set (runeStarts inp 0) \<union> {length inp}"
  have "0 \<in> B"
    unfolding B_def by (subst runeStarts.simps) auto
  then obtain units where u: "splitLoop alnum inp 0 True 0 [] = Inr units"
      "length (concat units) = length inp" "unitBounds units \<subseteq> B"
    using splitLoop_covers [of 0 0 inp "[]" True B alnum] B_def
    by (auto simp: unitBounds_Nil)
  have "\<not> insideRune inp (length (concat (take k units)))" if "k \<le> length units" for k
  proof -
    from that u(3) have "length (concat (take k units)) \<in> B"
      by (auto simp: unitBounds_def)
    then show ?thesis
      using runeStarts_not_inside [of _ inp 0]
      by (auto simp: insideRune_def list_ex_iff B_def)
  qed
  with u show ?thesis
    by (simp add: splitTextToWords_def)
qed

text \<open>
  Claim C5. For every byte slice, valid UTF-8 or not, \<open>splitTextToWords\<close> returns without a
  panic; the byte lengths of the units it returns add up to the length of the input; and no
  boundary between units (no prefix length of the unit sequence) lies strictly inside a code
  point decoded from the input. This holds whatever the letter and number tables are.
\<close>

theorem splitTextToWords_covers:
  "\<exists>units. splitTextToWords alnum inp = Inr units
     \<and> length (concat units) = length inp
     \<and> (\<forall>k\<le>length units. \<not> insideRune inp (length (concat (take k units))))"
  by (rule splitTextToWords_units)

theorem splitTextToWords_covers_witness:
  "splitTextToWords asciiAlnum [0x41, 0x62, 0xE4, 0xB8, 0xAD, 0xE4] = Inr [[0x61, 0x62], [0xE4, 0xB8, 0xAD], [0xE4]]
   \<and> \<not> insideRune [0x41, 0x62, 0xE4, 0xB8, 0xAD, 0xE4] 2
   \<and> \<not> insideRune [0x41, 0x62, 0xE4, 0xB8, 0xAD, 0xE4] 5
   \<and> insideRune [0x41, 0x62, 0xE4, 0xB8, 0xAD, 0xE4] 3"
proof -
  let ?inp = "[0x41, 0x62, 0xE4, 0xB8, 0xAD, 0xE4] :: Text"
  have e: "splitTextToWords asciiAlnum ?inp = Inr [[0x61, 0x62], [0xE4, 0xB8, 0xAD], [0xE4]]"
    by code_simp
  from splitTextToWords_covers [of asciiAlnum ?inp] e
  have h: "k \<le> 3 \<Longrightarrow> \<not> insideRune ?inp (length (concat (take k [[0x61, 0x62], [0xE4, 0xB8, 0xAD], [0xE4 :: byte]])))" for k
    by simp
  from h [of 1] h [of 2]
  have "\<not> insideRune ?inp 2" "\<not> insideRune ?inp 5"
    by (simp_all add: eval_nat_numeral)
  moreover have "insideRune ?inp 3"
    by code_simp
  ultimately show ?thesis
    using e by simp
qed


lemma uint_toLowerByte:
  "uint (toLowerByte t) = (if 65 \<le> uint t \<and> uint t \<le> 90 then uint t + 32 else uint t)"
proof -
  have a: "(65 \<le> uint t) = (65 \<le> unat t)" "(uint t \<le> 90) = (unat t \<le> 90)"
    by (simp_all add: uint_nat del: of_nat_unat)
  have "uint (toLowerByte t) = int (unat (toLowerByte t))"
    by (rule uint_nat)
  also have "\<dots> = (if 65 \<le> unat t \<and> unat t \<le> 90 then int (unat t) + 32 else int (unat t))"
    by (simp add: unat_toLowerByte del: of_nat_unat)
  also have "\<dots> = (if 65 \<le> uint t \<and> uint t \<le> 90 then uint t + 32 else uint t)"
    unfolding a by simp
  finally show ?thesis .
qed

lemma toLower_toLower: "toLower (toLower x) = toLower x"
  by (simp add: toLower_def toLowerByte_idem)

lemma toLower_take: "toLower (take n x) = take n (toLower x)"
  by (simp add: toLower_def take_map)

lemma toLower_drop: "toLower (drop n x) = drop n (toLower x)"
  by (simp add: toLower_def drop_map)

lemma toLower_append: "toLower (x @ y) = toLower x @ toLower y"
  by (simp add: toLower_def)

text \<open>A unit that is not part of a letter-and-digit run holds no upper-case ASCII byte.\<close>

lemma other_unit_fixed:
  assumes up: "\<forall>r. 0x41 \<le> r \<and> r \<le> 0x5A \<longrightarrow> alnum r"
    and other: "\<not> (snd (DecodeRune rest) \<le> 2 \<and> alnum (fst (DecodeRune rest)))"
  shows "toLower (take (snd (DecodeRune rest)) rest) = take (snd (DecodeRune rest)) rest"
proof (cases rest)
  case Nil
  then show ?thesis by (simp add: toLower_def)
next
  case (Cons p0 ps)
  show ?thesis
  proof (cases "p0 < 0x80")
    case True
    with other Cons have "\<not> alnum (uint p0)"
      by (simp add: DecodeRune_ascii)
    with up have "\<not> (65 \<le> uint p0 \<and> uint p0 \<le> 90)"
      by auto
    then have "uint (toLowerByte p0) = uint p0"
      by (simp add: uint_toLowerByte)
    then have "toLowerByte p0 = p0"
      by (simp add: word_uint_eq_iff)
    then show ?thesis
      using True Cons by (simp add: DecodeRune_ascii toLower_def)
  next
    case False
    then have "0x80 \<le> p0" by simp
    from DecodeRune_high_fixed [OF this] Cons show ?thesis
      by (simp add: toLower_def)
  qed
qed

lemma DecodeRune_toLower:
  assumes low: "\<forall>r. 0x41 \<le> r \<and> r \<le> 0x5A \<longrightarrow> alnum r \<and> alnum (r + 0x20)"
  shows "snd (DecodeRune (toLower rest)) = snd (DecodeRune rest)
       \<and> alnum (fst (DecodeRune (toLower rest))) = alnum (fst (DecodeRune rest))"
proof (cases rest)
  case Nil
  then show ?thesis by (simp add: toLower_def)
next
  case (Cons p0 ps)
  show ?thesis
  proof (cases "p0 < 0x80")
    case True
    show ?thesis
      using low unfolding Cons DecodeRune_toLower_ascii [OF True] DecodeRune_ascii [OF True]
      by (auto simp: uint_toLowerByte)
  next
    case False
    then have "0x80 \<le> p0" by simp
    from DecodeRune_toLower_high [OF this] Cons show ?thesis
      by simp
  qed
qed

lemma splitLoop_toLower:
  assumes low: "\<forall>r. 0x41 \<le> r \<and> r \<le> 0x5A \<longrightarrow> alnum r \<and> alnum (r + 0x20)"
    and "astart \<le> current" "current \<le> length inp"
  shows "splitLoop alnum (toLower inp) current inA astart out = splitLoop alnum inp current inA astart out"
  using assms(2,3)
proof (induction "length inp - current" arbitrary: current inA astart out rule: less_induct)
  case less
  show ?case
  proof (cases "current < length inp")
    case False
    with less.prems have eq: "current = length inp" "current = length (toLower inp)"
      by (simp_all add: length_toLower)
    show ?thesis
      unfolding splitLoop_done [OF less.prems(1) eq(1)] splitLoop_done [OF less.prems(1) eq(2)]
      by (simp add: toLower_take [symmetric] toLower_drop [symmetric] toLower_toLower)
  next
    case True
    then have True': "current < length (toLower inp)"
      by (simp add: length_toLower)
    define rest where "rest = drop current inp"
    define size where "size = snd (DecodeRune rest)"
    have size: "1 \<le> size" "current + size \<le> length inp"
      using DecodeRune_size [of rest] True by (auto simp: size_def rest_def)
    have dec: "length inp - (current + size) < length inp - current"
      using size True by arith
    have d: "snd (DecodeRune (toLower rest)) = size"
      "alnum (fst (DecodeRune (toLower rest))) = alnum (fst (DecodeRune rest))"
      using DecodeRune_toLower [OF low, of rest] by (simp_all add: size_def)
    have up: "\<forall>r. 0x41 \<le> r \<and> r \<le> 0x5A \<longrightarrow> alnum r"
      using low by blast
    have flush: "toLower (take (current - astart) (drop astart (toLower inp)))
        = toLower (take (current - astart) (drop astart inp))"
      by (simp add: toLower_take [symmetric] toLower_drop [symmetric] toLower_toLower)
    show ?thesis
    proof (cases "size \<le> 2 \<and> alnum (fst (DecodeRune rest))")
      case alnum: True
      show ?thesis
        unfolding splitLoop_step [OF less.prems(1) True] splitLoop_step [OF less.prems(1) True']
        using alnum d size less.prems less.hyps [OF dec]
        by (simp add: Let_def toLower_drop [symmetric] rest_def [symmetric] size_def [symmetric])
    next
      case other: False
      then have "toLower (take size rest) = take size rest"
        using other_unit_fixed [OF up, of rest] by (simp add: size_def)
      then have unit: "take size (toLower rest) = take size rest"
        by (simp add: toLower_take)
      show ?thesis
        unfolding splitLoop_step [OF less.prems(1) True] splitLoop_step [OF less.prems(1) True']
        using other d size less.prems less.hyps [OF dec] unit flush
        by (auto simp: Let_def toLower_drop [symmetric] rest_def [symmetric] size_def [symmetric])
    qed
  qed
qed

lemma take_split: "s \<le> c \<Longrightarrow> take s xs @ take (c - s) (drop s xs) = take c xs"
  using take_add [of s "c - s" xs] by simp

lemma splitLoop_concat:
  assumes up: "\<forall>r. 0x41 \<le> r \<and> r \<le> 0x5A \<longrightarrow> alnum r"
    and "astart \<le> current" "current \<le> length inp"
    and "concat out = toLower (take (if inA then astart else current) inp)"
  shows "\<exists>units. splitLoop alnum inp current inA astart out = Inr units \<and> concat units = toLower inp"
  using assms(2-4)
proof (induction "length inp - current" arbitrary: current inA astart out rule: less_induct)
  case less
  define out1 where "out1 = (if inA \<and> current \<noteq> 0
              then out @ [toLower (take (current - astart) (drop astart inp))] else out)"
  have out1: "concat out1 = toLower (take current inp)"
  proof (cases "inA \<and> current \<noteq> 0")
    case True
    then have "concat out1 = toLower (take astart inp @ take (current - astart) (drop astart inp))"
      using less.prems by (simp add: out1_def toLower_append)
    then show ?thesis
      using less.prems(1) by (simp add: take_split)
  next
    case False
    then show ?thesis
      using less.prems by (auto simp: out1_def)
  qed
  show ?case
  proof (cases "current < length inp")
    case False
    with less.prems have eq: "current = length inp" by simp
    show ?thesis
      unfolding splitLoop_done [OF less.prems(1) eq] using out1 eq
      by (simp add: out1_def)
  next
    case True
    define rest where "rest = drop current inp"
    define size where "size = snd (DecodeRune rest)"
    have size: "1 \<le> size" "current + size \<le> length inp"
      using DecodeRune_size [of rest] True by (auto simp: size_def rest_def)
    have dec: "length inp - (current + size) < length inp - current"
      using size True by arith
    show ?thesis
    proof (cases "size \<le> 2 \<and> alnum (fst (DecodeRune rest))")
      case alnum: True
      have "\<exists>units. splitLoop alnum inp (current + size) True (if inA then astart else current) out = Inr units
           \<and> concat units = toLower inp"
        using less.prems size by (intro less.hyps [OF dec]) auto
      then show ?thesis
        using alnum
        by (simp add: splitLoop_step [OF less.prems(1) True] Let_def size_def rest_def)
    next
      case other: False
      then have "toLower (take size rest) = take size rest"
        using other_unit_fixed [OF up, of rest] by (simp add: size_def)
      then have "concat (out1 @ [take size rest]) = toLower (take current inp @ take size (drop current inp))"
        using out1 by (simp add: toLower_append rest_def)
      then have "concat (out1 @ [take size rest]) = toLower (take (current + size) inp)"
        by (simp add: take_add)
      then have "\<exists>units. splitLoop alnum inp (current + size) False astart (out1 @ [take size rest]) = Inr units
           \<and> concat units = toLower inp"
        using less.prems size by (intro less.hyps [OF dec]) auto
      then show ?thesis
        using other
        by (auto simp: splitLoop_step [OF less.prems(1) True] Let_def size_def rest_def out1_def)
    qed
  qed
qed

text \<open>
  Claim C8. Splitting is idempotent: splitting the concatenation of the units of a split
  returns the same units. The letter and number tables are a parameter; what the proof uses
  of them is that the upper-case ASCII letters and their lower-case forms are letters, as they
  are in \<open>unicode.IsLetter\<close>.
\<close>

theorem splitTextToWords_idempotent:
  assumes "\<forall>r. 0x41 \<le> r \<and> r \<le> 0x5A \<longrightarrow> alnum r \<and> alnum (r + 0x20)"
  shows "\<exists>units. splitTextToWords alnum inp = Inr units
           \<and> splitTextToWords alnum (concat units) = Inr units"
proof -
  have up: "\<forall>r. 0x41 \<le> r \<and> r \<le> 0x5A \<longrightarrow> alnum r"
    using assms by blast
  obtain units where u: "splitLoop alnum inp 0 True 0 [] = Inr units" "concat units = toLower inp"
    using splitLoop_concat [OF up, of 0 0 inp "[]" True] by (auto simp: toLower_def)
  have "splitLoop alnum (toLower inp) 0 True 0 [] = splitLoop alnum inp 0 True 0 []"
    using splitLoop_toLower [OF assms, of 0 0 inp True "[]"] by simp
  with u show ?thesis
    by (simp add: splitTextToWords_def)
qed

theorem splitTextToWords_idempotent_witness:
  "asciiAlnum 0x41 \<and> asciiAlnum (0x41 + 0x20) \<and> asciiAlnum 0x5A \<and> asciiAlnum (0x5A + 0x20)
   \<and> splitTextToWords asciiAlnum [0xE4, 0xB8, 0xAD, 0x41, 0x62, 0x43, 0x2C, 0xFF, 0x37]
       = Inr [[0xE4, 0xB8, 0xAD], [0x61, 0x62, 0x63], [0x2C], [0xFF], [0x37]]
   \<and> splitTextToWords asciiAlnum (concat [[0xE4, 0xB8, 0xAD], [0x61, 0x62, 0x63], [0x2C], [0xFF], [0x37]])
       = Inr [[0xE4, 0xB8, 0xAD], [0x61, 0x62, 0x63], [0x2C], [0xFF], [0x37]]"
proof -
  have h: "\<forall>r. 0x41 \<le> r \<and> r \<le> 0x5A \<longrightarrow> asciiAlnum r \<and> asciiAlnum (r + 0x20)"
    by (simp add: asciiAlnum_def)
  have e: "splitTextToWords asciiAlnum [0xE4, 0xB8, 0xAD, 0x41, 0x62, 0x43, 0x2C, 0xFF, 0x37]
       = Inr [[0xE4, 0xB8, 0xAD], [0x61, 0x62, 0x63], [0x2C], [0xFF], [0x37]]"
    by code_simp
  have a: "asciiAlnum 0x41" "asciiAlnum (0x41 + 0x20)" "asciiAlnum 0x5A" "asciiAlnum (0x5A + 0x20)"
    by (simp_all add: asciiAlnum_def)
  from splitTextToWords_idempotent [OF h, of "[0xE4, 0xB8, 0xAD, 0x41, 0x62, 0x43, 0x2C, 0xFF, 0x37]"] e
  have "splitTextToWords asciiAlnum (concat [[0xE4, 0xB8, 0xAD], [0x61, 0x62, 0x63], [0x2C], [0xFF], [0x37]])
       = Inr [[0xE4, 0xB8, 0xAD], [0x61, 0x62, 0x63], [0x2C], [0xFF], [0x37]]"
    by auto
  with e a show ?thesis
    by blast
qed


section \<open>Properties of the segmenter\<close>

lemma updateJumper_cases:
  "updateJumper F j b t = j \<or> updateJumper F j b t = \<lparr>minDistance = fadd F b (distance t), jtoken = Some t\<rparr>"
  by (simp add: updateJumper_def Let_def)

lemma updateJumper_fresh:
  "feq F (flit F 0) (flit F 0) \<Longrightarrow> cellFresh F j \<Longrightarrow>
   updateJumper F j b t = \<lparr>minDistance = fadd F b (distance t), jtoken = Some t\<rparr>"
  by (simp add: updateJumper_def Let_def cellFresh_def)

lemma updateJumper_OK:
  "fits words sm i t \<Longrightarrow> cellOK words sm i j \<Longrightarrow> cellOK words sm i (updateJumper F j b t)"
  using updateJumper_cases [of F j b t] by (auto simp: cellOK_def)

lemma updateJumper_OK_fresh:
  "feq F (flit F 0) (flit F 0) \<Longrightarrow> fits words sm i t \<Longrightarrow> cellOK words sm i j \<or> cellFresh F j \<Longrightarrow>
   cellOK words sm i (updateJumper F j b t)"
  using updateJumper_OK [of words sm i t j F b] updateJumper_fresh [of F j b t]
  by (auto simp: cellOK_def)

lemma updateJumperAt_inv:
  assumes "cellsInv F words sm c jumpers" "loc < length words" "fits words sm loc t" "c \<le> loc"
    and z: "feq F (flit F 0) (flit F 0)"
  shows "\<exists>jumpers'. updateJumperAt F jumpers (int loc) b t = Inr jumpers'
          \<and> cellsInv F words sm c jumpers' \<and> cellOK words sm loc (jumpers' ! loc)
          \<and> (\<forall>i<length words. cellOK words sm i (jumpers ! i) \<longrightarrow> cellOK words sm i (jumpers' ! i))"
proof -
  let ?j' = "jumpers[loc := updateJumper F (jumpers ! loc) b t]"
  have len: "length jumpers = length words"
    using assms(1) by (simp add: cellsInv_def)
  then have eq: "updateJumperAt F jumpers (int loc) b t = Inr ?j'"
    using assms(2) by (simp add: updateJumperAt_def index_def)
  have old: "cellOK words sm loc (jumpers ! loc) \<or> cellFresh F (jumpers ! loc)"
    using assms(1,2) by (auto simp: cellsInv_def)
  have new: "cellOK words sm loc (updateJumper F (jumpers ! loc) b t)"
    using updateJumper_OK_fresh [OF z assms(3) old] .
  have "cellsInv F words sm c ?j'"
    unfolding cellsInv_def
  proof (intro conjI allI impI)
    show "length ?j' = length words" using len by simp
  next
    fix i assume "i < length words"
    then show "cellOK words sm i (?j' ! i) \<or> c \<le> i \<and> cellFresh F (?j' ! i)"
      using assms(1) new len by (cases "i = loc") (auto simp: cellsInv_def)
  qed
  moreover have "cellOK words sm loc (?j' ! loc)"
    using new len assms(2) by simp
  moreover have "\<forall>i<length words. cellOK words sm i (jumpers ! i) \<longrightarrow> cellOK words sm i (?j' ! i)"
  proof (intro allI impI)
    fix i assume "i < length words" "cellOK words sm i (jumpers ! i)"
    then show "cellOK words sm i (?j' ! i)"
      using new len by (cases "i = loc") auto
  qed
  ultimately show ?thesis
    using eq by blast
qed

lemma lookupTokens_set:
  "t \<in> set (lookupTokens d window) \<longleftrightarrow>
   t \<in> set (tokens d) \<and> (\<exists>k\<le>length window. text' t = take k window)"
proof -
  have "(\<exists>k\<in>{0..<Suc (length window)}. text' t = take k window)
        \<longleftrightarrow> (\<exists>k\<le>length window. text' t = take k window)"
    by (auto simp: less_Suc_eq_le)
  then show ?thesis
    by (auto simp: lookupTokens_def)
qed

lemma lookupTokens_matchesAt:
  assumes "wfDictionary d" "c \<le> length words" "t \<in> set (lookupTokens d (take m (drop c words)))"
  shows "matchesAt words c t"
proof -
  from assms(3) obtain k where k: "t \<in> set (tokens d)" "k \<le> length (take m (drop c words))"
      "text' t = take k (take m (drop c words))"
    by (auto simp: lookupTokens_set)
  then have len: "length (text' t) = k"
    by simp
  have "text' t \<noteq> []"
    using assms(1) k(1) by (auto simp: wfDictionary_def list_all_iff)
  moreover have "take k (take m (drop c words)) = take k (drop c words)"
    using k(2) by (simp add: min_absorb1)
  moreover have "c + k \<le> length words"
    using k(2) assms(2) by auto
  ultimately show ?thesis
    using k(3) len by (cases "text' t") (auto simp: matchesAt_def)
qed

lemma matchesAt_fits:
  assumes "matchesAt words c t" "\<not> sm \<or> c \<noteq> 0 \<or> c + length (text' t) \<noteq> length words"
  shows "fits words sm (c + length (text' t) - 1) t"
  using assms by (auto simp: matchesAt_def fits_def Let_def)

lemma updateTokens_inv:
  assumes z: "feq F (flit F 0) (flit F 0)" and "c < length words"
    and "\<forall>t\<in>set toks. matchesAt words c t" "cellsInv F words sm c jumpers"
  shows "\<exists>jumpers'. updateTokens F (length words) sm c b toks jumpers = Inr jumpers'
          \<and> cellsInv F words sm c jumpers'
          \<and> (\<forall>i<length words. cellOK words sm i (jumpers ! i) \<longrightarrow> cellOK words sm i (jumpers' ! i))"
  using assms(3,4)
proof (induction toks arbitrary: jumpers)
  case Nil
  then show ?case by simp
next
  case (Cons tok toks)
  let ?len = "length (text' tok)"
  let ?loc = "c + ?len - 1"
  have m: "matchesAt words c tok" using Cons.prems(1) by simp
  then have len: "1 \<le> ?len" "c + ?len \<le> length words"
    by (auto simp: matchesAt_def)
  then have loc: "int c + int ?len - 1 = int ?loc" "?loc < length words" "c \<le> ?loc"
    by auto
  show ?case
  proof (cases "\<not> sm \<or> c \<noteq> 0 \<or> int c + int ?len - 1 \<noteq> int (length words) - 1")
    case True
    then have "\<not> sm \<or> c \<noteq> 0 \<or> c + ?len \<noteq> length words"
      using len by auto
    from matchesAt_fits [OF m this] have f: "fits words sm ?loc tok" .
    from updateJumperAt_inv [OF Cons.prems(2) loc(2) f loc(3) z, of b]
    obtain j1 where j1: "updateJumperAt F jumpers (int ?loc) b tok = Inr j1"
        "cellsInv F words sm c j1"
        "\<forall>i<length words. cellOK words sm i (jumpers ! i) \<longrightarrow> cellOK words sm i (j1 ! i)"
      by blast
    from Cons.IH [OF _ j1(2)] Cons.prems(1)
    obtain j2 where j2: "updateTokens F (length words) sm c b toks j1 = Inr j2"
        "cellsInv F words sm c j2"
        "\<forall>i<length words. cellOK words sm i (j1 ! i) \<longrightarrow> cellOK words sm i (j2 ! i)"
      by auto
    have "updateTokens F (length words) sm c b (tok # toks) jumpers = Inr j2"
      using True j1(1) j2(1) by (simp add: Let_def loc(1))
    then show ?thesis
      using j2(2,3) j1(3) by auto
  next
    case False
    from Cons.IH [OF _ Cons.prems(2)] Cons.prems(1)
    obtain j2 where j2: "updateTokens F (length words) sm c b toks jumpers = Inr j2"
        "cellsInv F words sm c j2"
        "\<forall>i<length words. cellOK words sm i (jumpers ! i) \<longrightarrow> cellOK words sm i (j2 ! i)"
      by auto
    have "updateTokens F (length words) sm c b (tok # toks) jumpers = Inr j2"
      using False j2(1) by (simp add: Let_def)
    then show ?thesis
      using j2(2,3) by auto
  qed
qed

text \<open>When the first token found has one unit, the cell at \<open>c\<close> holds a token afterwards.\<close>

lemma updateTokens_single:
  assumes z: "feq F (flit F 0) (flit F 0)" and "c < length words"
    and "\<forall>t\<in>set (tok # toks). matchesAt words c t" "cellsInv F words sm c jumpers"
    and "length (text' tok) = 1" "sm \<longrightarrow> length words \<noteq> 1"
  shows "\<exists>jumpers'. updateTokens F (length words) sm c b (tok # toks) jumpers = Inr jumpers'
          \<and> cellsInv F words sm c jumpers' \<and> cellOK words sm c (jumpers' ! c)"
proof -
  have m: "matchesAt words c tok" using assms(3) by simp
  have go: "\<not> sm \<or> c \<noteq> 0 \<or> c + length (text' tok) \<noteq> length words"
    using assms(5,6) by auto
  from matchesAt_fits [OF m go] have f: "fits words sm c tok"
    using assms(5) by simp
  from updateJumperAt_inv [OF assms(4,2) f _ z, of b]
  obtain j1 where j1: "updateJumperAt F jumpers (int c) b tok = Inr j1"
      "cellsInv F words sm c j1" "cellOK words sm c (j1 ! c)"
    by auto
  from updateTokens_inv [OF z assms(2) _ j1(2), of toks b] assms(3)
  obtain j2 where j2: "updateTokens F (length words) sm c b toks j1 = Inr j2"
      "cellsInv F words sm c j2"
      "\<forall>i<length words. cellOK words sm i (j1 ! i) \<longrightarrow> cellOK words sm i (j2 ! i)"
    by auto
  have "updateTokens F (length words) sm c b (tok # toks) jumpers = Inr j2"
    using go j1(1) j2(1) assms(5) by (auto simp: Let_def)
  then show ?thesis
    using j2(2,3) j1(3) assms(2) by auto
qed

lemma pseudoToken_fits:
  assumes "c < length words" "sm \<longrightarrow> length words \<noteq> 1"
  shows "fits words sm c (pseudoToken F (words ! c))"
proof -
  have "drop c words = words ! c # drop (Suc c) words"
    using assms(1) by (rule Cons_nth_drop_Suc [symmetric])
  then have "take 1 (drop c words) = [words ! c]"
    by simp
  then show ?thesis
    using assms by (auto simp: fits_def pseudoToken_def)
qed

lemma cellsInv_Suc:
  "cellsInv F words sm c jumpers \<Longrightarrow> cellOK words sm c (jumpers ! c) \<Longrightarrow>
   cellsInv F words sm (Suc c) jumpers"
  unfolding cellsInv_def by (metis Suc_leI le_neq_implies_less)

lemma forwardStep_inv:
  assumes z: "feq F (flit F 0) (flit F 0)" and wf: "wfDictionary d"
    and c: "c < length words" and inv: "cellsInv F words sm c jumpers"
    and sm: "sm \<longrightarrow> length words \<noteq> 1"
  shows "\<exists>jumpers'. forwardStep F d words sm c jumpers = Inr jumpers'
          \<and> cellsInv F words sm (Suc c) jumpers'"
proof -
  define b where "b = (if c = 0 then flit F 0 else minDistance (jumpers ! (c - 1)))"
  define m where "m = minInt (c + maxTokenLength d) (length words)"
  define toks where "toks = lookupTokens d (take (m - c) (drop c words))"
  have len: "length jumpers = length words"
    using inv by (simp add: cellsInv_def)
  have base: "(if c = 0 then Inr (flit F 0)
           else map_sum id minDistance (index jumpers (int c - 1))) = Inr b"
    using c len by (auto simp: index_def b_def nat_diff_distrib)
  have "c \<le> m" "m \<le> length words"
    using c by (auto simp: m_def minInt_def)
  then have window: "slice words c m = Inr (take (m - c) (drop c words))"
    by (simp add: slice_def)
  have matches: "\<forall>t\<in>set toks. matchesAt words c t"
    using lookupTokens_matchesAt [OF wf, of c words _ "m - c"] c by (auto simp: toks_def)
  have word: "index words (int c) = Inr (words ! c)"
    using c by (simp add: index_def)
  have unfold: "forwardStep F d words sm c jumpers =
     (case updateTokens F (length words) sm c b toks jumpers of
        Inl e \<Rightarrow> Inl e
      | Inr jumpers' \<Rightarrow>
         if needsPseudoToken toks
         then updateJumperAt F jumpers' (int c) b (pseudoToken F (words ! c))
         else Inr jumpers')"
    unfolding forwardStep_def base
    by (simp add: window m_def [symmetric] toks_def [symmetric] word Let_def split: sum.splits)
  show ?thesis
  proof (cases "needsPseudoToken toks")
    case True
    from updateTokens_inv [OF z c matches inv, of b]
    obtain j1 where j1: "updateTokens F (length words) sm c b toks jumpers = Inr j1"
        "cellsInv F words sm c j1"
      by blast
    from updateJumperAt_inv [OF j1(2) c pseudoToken_fits [OF c sm] _ z, of b F]
    obtain j2 where j2: "updateJumperAt F j1 (int c) b (pseudoToken F (words ! c)) = Inr j2"
        "cellsInv F words sm c j2" "cellOK words sm c (j2 ! c)"
      by auto
    show ?thesis
      using True j1(1) j2(1) cellsInv_Suc [OF j2(2,3)] by (simp add: unfold)
  next
    case False
    then obtain tok rest where toks: "toks = tok # rest" "length (text' tok) \<le> 1"
      by (cases toks) (auto simp: needsPseudoToken_def)
    with matches have one: "length (text' tok) = 1"
      by (auto simp: matchesAt_def)
    from updateTokens_single [OF z c _ inv one sm, of rest b] matches toks(1)
    obtain j1 where j1: "updateTokens F (length words) sm c b toks jumpers = Inr j1"
        "cellsInv F words sm c j1" "cellOK words sm c (j1 ! c)"
      by auto
    show ?thesis
      using False j1(1) cellsInv_Suc [OF j1(2,3)] by (simp add: unfold)
  qed
qed

lemma forward_inv:
  assumes z: "feq F (flit F 0) (flit F 0)" and wf: "wfDictionary d"
    and sm: "sm \<longrightarrow> length words \<noteq> 1"
    and "c \<le> length words" "cellsInv F words sm c jumpers"
  shows "\<exists>jumpers'. forward F d words sm c jumpers = Inr jumpers'
          \<and> cellsInv F words sm (length words) jumpers'"
  using assms(4,5)
proof (induction "length words - c" arbitrary: c jumpers)
  case 0
  then show ?case
    by (subst forward.simps) simp
next
  case (Suc n)
  then have c: "c < length words" by simp
  from forwardStep_inv [OF z wf c Suc.prems(2) sm]
  obtain j1 where j1: "forwardStep F d words sm c jumpers = Inr j1"
      "cellsInv F words sm (Suc c) j1"
    by blast
  have "n = length words - Suc c" using Suc.hyps(2) by simp
  from Suc.hyps(1) [OF this _ j1(2)] c
  obtain j2 where "forward F d words sm (Suc c) j1 = Inr j2"
      "cellsInv F words sm (length words) j2"
    by auto
  then show ?case
    using c j1(1) by (subst forward.simps) simp
qed

lemma cellsInv_init:
  "cellsInv F words sm 0 (replicate (length words) \<lparr>minDistance = flit F 0, jtoken = None\<rparr>)"
  by (simp add: cellsInv_def cellFresh_def)

lemma cellsInv_allOK: "cellsInv F words sm (length words) jumpers \<Longrightarrow> allOK words sm jumpers"
  by (auto simp: cellsInv_def allOK_def)

lemma allOK_cell:
  assumes "allOK words sm jumpers" "0 < m" "m \<le> length words"
  obtains t where "jtoken (jumpers ! (m - 1)) = Some t" "1 \<le> length (text' t)"
    "length (text' t) \<le> m" "text' t = take (length (text' t)) (drop (m - length (text' t)) words)"
    "index jumpers (int m - 1) = Inr (jumpers ! (m - 1))"
    "backTokens jumpers m = backTokens jumpers (m - length (text' t)) @ [t]"
proof -
  have i: "m - 1 < length words" using assms by simp
  then have "cellOK words sm (m - 1) (jumpers ! (m - 1))"
    using assms(1) by (simp add: allOK_def)
  then obtain t where t: "jtoken (jumpers ! (m - 1)) = Some t" "fits words sm (m - 1) t"
    by (auto simp: cellOK_def split: option.splits)
  have f: "1 \<le> length (text' t)" "length (text' t) \<le> m"
    "text' t = take (length (text' t)) (drop (m - length (text' t)) words)"
    using t(2) assms(2) by (auto simp: fits_def Let_def)
  have "index jumpers (int m - 1) = Inr (jumpers ! (m - 1))"
    using assms i by (auto simp: index_def allOK_def nat_diff_distrib)
  moreover have "backTokens jumpers m = backTokens jumpers (m - length (text' t)) @ [t]"
    using assms(2) t(1) f(1) by (subst backTokens.simps) simp
  ultimately show ?thesis
    using that t(1) f by blast
qed

lemma countSegments_backTokens:
  assumes "allOK words sm jumpers" "m \<le> length words"
  shows "countSegments jumpers (int m - 1) acc = Some (Inr (acc + length (backTokens jumpers m)))"
  using assms(2)
proof (induction m arbitrary: acc rule: less_induct)
  case (less m)
  show ?case
  proof (cases "m = 0")
    case True
    then show ?thesis
      by (subst countSegments.simps, subst backTokens.simps) simp
  next
    case False
    then have pos: "0 < m" by simp
    from allOK_cell [OF assms(1) pos less.prems] obtain t where
      t: "jtoken (jumpers ! (m - 1)) = Some t" "1 \<le> length (text' t)" "length (text' t) \<le> m"
        "index jumpers (int m - 1) = Inr (jumpers ! (m - 1))"
        "backTokens jumpers m = backTokens jumpers (m - length (text' t)) @ [t]"
      by blast
    have next_idx: "int m - int (length (text' t)) = int (m - length (text' t))"
      using t(3) by simp
    have "countSegments jumpers (int (m - length (text' t)) - 1) (acc + 1)
        = Some (Inr (acc + 1 + length (backTokens jumpers (m - length (text' t)))))"
      using t(2) pos less.prems by (intro less.IH) auto
    then show ?thesis
      using pos t(1,4) by (subst countSegments.simps) (simp add: Let_def next_idx t(5))
  qed
qed


lemma fillSegments_backTokens:
  assumes "allOK words sm jumpers" "m \<le> length words"
    and "k = length (backTokens jumpers m)" "k \<le> length out"
  shows "\<exists>out'. fillSegments jumpers (int m - 1) (int k) out = Some (Inr out')
          \<and> length out' = length out
          \<and> (\<forall>i<k. out' ! i = Segment (start (out ! i)) (end' (out ! i)) (Some (backTokens jumpers m ! i)))
          \<and> (\<forall>i. k \<le> i \<and> i < length out \<longrightarrow> out' ! i = out ! i)"
  using assms(2-4)
proof (induction m arbitrary: k out rule: less_induct)
  case (less m)
  show ?case
  proof (cases "m = 0")
    case True
    then have "backTokens jumpers m = []"
      by (subst backTokens.simps) simp
    then show ?thesis
      using True less.prems by (subst fillSegments.simps) simp
  next
    case False
    then have pos: "0 < m" by simp
    from allOK_cell [OF assms(1) pos less.prems(1)] obtain t where
      t: "jtoken (jumpers ! (m - 1)) = Some t" "1 \<le> length (text' t)" "length (text' t) \<le> m"
        "index jumpers (int m - 1) = Inr (jumpers ! (m - 1))"
        "backTokens jumpers m = backTokens jumpers (m - length (text' t)) @ [t]"
      by blast
    let ?m' = "m - length (text' t)"
    let ?toks' = "backTokens jumpers ?m'"
    define k' where "k' = length ?toks'"
    have k: "k = Suc k'"
      using less.prems(2) t(5) by (simp add: k'_def)
    define out1 where "out1 = out[k' := Segment (start (out ! k')) (end' (out ! k')) (Some t)]"
    have next_idx: "int m - int (length (text' t)) = int ?m'"
      using t(3) by simp
    have seg: "index out (int k - 1) = Inr (out ! k')"
      using k less.prems(3) by (simp add: index_def)
    have "\<exists>out'. fillSegments jumpers (int ?m' - 1) (int k') out1 = Some (Inr out')
          \<and> length out' = length out1
          \<and> (\<forall>i<k'. out' ! i = Segment (start (out1 ! i)) (end' (out1 ! i)) (Some (?toks' ! i)))
          \<and> (\<forall>i. k' \<le> i \<and> i < length out1 \<longrightarrow> out' ! i = out1 ! i)"
      using t(2) pos less.prems k by (intro less.IH) (auto simp: k'_def out1_def)
    then obtain out' where out': "fillSegments jumpers (int ?m' - 1) (int k') out1 = Some (Inr out')"
        "length out' = length out1"
        "\<forall>i<k'. out' ! i = Segment (start (out1 ! i)) (end' (out1 ! i)) (Some (?toks' ! i))"
        "\<forall>i. k' \<le> i \<and> i < length out1 \<longrightarrow> out' ! i = out1 ! i"
      by blast
    have step: "fillSegments jumpers (int m - 1) (int k) out = Some (Inr out')"
      using pos t(1,4) seg out'(1)
      by (subst fillSegments.simps) (simp add: Let_def next_idx k out1_def)
    have low: "out' ! i = Segment (start (out ! i)) (end' (out ! i)) (Some (backTokens jumpers m ! i))"
      if "i < k" for i
    proof (cases "i < k'")
      case True
      then show ?thesis
        using out'(3) by (simp add: out1_def t(5) nth_append k'_def)
    next
      case False
      with that k have "i = k'" by simp
      then show ?thesis
        using out'(4) less.prems(3) k by (simp add: out1_def t(5) nth_append k'_def)
    qed
    have high: "out' ! i = out ! i" if "k \<le> i" "i < length out" for i
      using that out'(4) k by (simp add: out1_def)
    show ?thesis
      using step out'(2) low high by (simp add: out1_def)
  qed
qed

lemma bytePositions_layout:
  "bytePositions p (map (\<lambda>t. Segment a b (Some t)) toks) = Inr (layout p toks)"
  by (induction toks arbitrary: p) (simp_all add: Let_def)







lemma scans_result:
  assumes "allOK words sm jumpers"
  defines "toks \<equiv> backTokens jumpers (length words)"
  shows "countSegments jumpers (int (length words) - 1) 0 = Some (Inr (length toks))"
    and "fillSegments jumpers (int (length words) - 1) (int (length toks))
           (replicate (length toks) (Segment 0 0 None))
         = Some (Inr (map (\<lambda>t. Segment 0 0 (Some t)) toks))"
proof -
  show "countSegments jumpers (int (length words) - 1) 0 = Some (Inr (length toks))"
    using countSegments_backTokens [OF assms(1), of "length words" 0] by (simp add: toks_def)
  from fillSegments_backTokens [OF assms(1), of "length words" "length toks"
      "replicate (length toks) (Segment 0 0 None)"]
  obtain out' where out': "fillSegments jumpers (int (length words) - 1) (int (length toks))
           (replicate (length toks) (Segment 0 0 None)) = Some (Inr out')"
      "length out' = length toks"
      "\<forall>i<length toks. out' ! i = Segment 0 0 (Some (toks ! i))"
    by (auto simp: toks_def)
  have "out' = map (\<lambda>t. Segment 0 0 (Some t)) toks"
    using out'(2,3) by (intro nth_equalityI) auto
  with out'(1) show "fillSegments jumpers (int (length words) - 1) (int (length toks))
           (replicate (length toks) (Segment 0 0 None))
         = Some (Inr (map (\<lambda>t. Segment 0 0 (Some t)) toks))"
    by simp
qed

lemma segmentWords_result:
  assumes z: "feq F (flit F 0) (flit F 0)" and wf: "wfDictionary d"
    and seg: "dict seg = Some d" and sm: "sm \<longrightarrow> length words \<noteq> 1"
  shows "\<exists>jumpers. forward F d words sm 0
            (replicate (length words) \<lparr>minDistance = flit F 0, jtoken = None\<rparr>) = Inr jumpers
          \<and> allOK words sm jumpers
          \<and> segmentWords F seg words sm = Some (Inr (layout 0 (backTokens jumpers (length words))))"
proof -
  from forward_inv [OF z wf sm le0 cellsInv_init]
  obtain jumpers where j: "forward F d words sm 0
            (replicate (length words) \<lparr>minDistance = flit F 0, jtoken = None\<rparr>) = Inr jumpers"
      "cellsInv F words sm (length words) jumpers"
    by auto
  have ok: "allOK words sm jumpers"
    using j(2) by (rule cellsInv_allOK)
  have "segmentWords F seg words sm = Some (Inr (layout 0 (backTokens jumpers (length words))))"
    using sm seg j(1) scans_result [OF ok]
    by (auto simp: segmentWords_def bytePositions_layout)
  with j(1) ok show ?thesis
    by blast
qed






section \<open>Properties of the dictionary loader\<close>

lemma fieldsLoop_nonempty:
  assumes "p \<le> length s" "\<forall>b. fieldStart = Some b \<longrightarrow> b < p" "\<forall>f\<in>set spans. f \<noteq> []"
  shows "\<forall>f\<in>set (fieldsLoop s p fieldStart spans). f \<noteq> []"
  using assms
proof (induction s p fieldStart spans rule: fieldsLoop.induct)
  case (1 s p fieldStart spans)
  show ?case
  proof (cases "p < length s")
    case False
    with "1.prems" show ?thesis
      by (subst fieldsLoop.simps) (auto split: option.splits)
  next
    case True
    define size where "size = snd (DecodeRune (drop p s))"
    have size: "1 \<le> size" "p + size \<le> length s"
      using DecodeRune_size [of "drop p s"] True by (auto simp: size_def)
    show ?thesis
    proof (cases "IsSpace (fst (DecodeRune (drop p s)))")
      case space: True
      show ?thesis
      proof (cases fieldStart)
        case None
        have "\<forall>f\<in>set (fieldsLoop s (p + size) None spans). f \<noteq> []"
          using "1.IH"(1) [OF True refl refl space None] size "1.prems"(3) by (simp add: size_def)
        then show ?thesis
          using True space None by (subst fieldsLoop.simps) (simp add: Let_def size_def)
      next
        case (Some b)
        then have "b < p" using "1.prems"(2) by simp
        then have "take (p - b) (drop b s) \<noteq> []"
          using True by simp
        then have "\<forall>f\<in>set (fieldsLoop s (p + size) None (spans @ [take (p - b) (drop b s)])). f \<noteq> []"
          using "1.IH"(2) [OF True refl refl space Some] size "1.prems"(3) by (simp add: size_def)
        then show ?thesis
          using True space Some by (subst fieldsLoop.simps) (simp add: Let_def size_def)
      qed
    next
      case other: False
      show ?thesis
      proof (cases fieldStart)
        case None
        have "\<forall>f\<in>set (fieldsLoop s (p + size) (Some p) spans). f \<noteq> []"
          using "1.IH"(3) [OF True refl refl other None] size "1.prems"(3) by (simp add: size_def)
        then show ?thesis
          using True other None by (subst fieldsLoop.simps) (simp add: Let_def size_def)
      next
        case (Some b)
        then have "b < p" using "1.prems"(2) by simp
        then have "\<forall>f\<in>set (fieldsLoop s (p + size) (Some b) spans). f \<noteq> []"
          using "1.IH"(4) [OF True refl refl other Some] size "1.prems"(3) by (simp add: size_def)
        then show ?thesis
          using True other Some by (subst fieldsLoop.simps) (simp add: Let_def size_def)
      qed
    qed
  qed
qed

lemma Fields_nonempty: "f \<in> set (Fields line) \<Longrightarrow> f \<noteq> []"
  using fieldsLoop_nonempty [of 0 line None "[]"] by (auto simp: Fields_def)

lemma splitTextToWords_nonempty:
  assumes "bytes \<noteq> []"
  obtains words where "splitTextToWords alnum bytes = Inr words" "words \<noteq> []"
proof -
  from splitTextToWords_units [of alnum bytes]
  obtain words where w: "splitTextToWords alnum bytes = Inr words" "length (concat words) = length bytes"
    by blast
  with assms have "words \<noteq> []" by auto
  with w(1) that show ?thesis by blast
qed

lemma readRecords_done:
  "ReadString reader = (line, rest, err) \<Longrightarrow> err \<and> length line = 0 \<Longrightarrow>
   readRecords F alnum reader d = Inr d \<and> recordLines reader = []"
  by (subst readRecords.simps, subst recordLines.simps) simp

lemma readRecords_step:
  assumes "ReadString reader = (line, rest, err)" "\<not> (err \<and> length line = 0)"
  shows "readRecords F alnum reader d =
      (if discarded line then readRecords F alnum rest d
       else
         (case splitTextToWords alnum (Fields line ! 0) of
            Inl e \<Rightarrow> Inl e
          | Inr words \<Rightarrow>
             readRecords F alnum rest
               (addToken d (Token words (the (Atoi (Fields line ! 1))) (flit F 0)
                  (if 3 \<le> length (Fields line) then Fields line ! 2 else []) []))))"
    and "recordLines reader = line # recordLines rest"
proof -
  show "recordLines reader = line # recordLines rest"
    using assms by (subst recordLines.simps) auto
  show "readRecords F alnum reader d =
      (if discarded line then readRecords F alnum rest d
       else
         (case splitTextToWords alnum (Fields line ! 0) of
            Inl e \<Rightarrow> Inl e
          | Inr words \<Rightarrow>
             readRecords F alnum rest
               (addToken d (Token words (the (Atoi (Fields line ! 1))) (flit F 0)
                  (if 3 \<le> length (Fields line) then Fields line ! 2 else []) []))))"
  proof (cases "length (Fields line) < 2")
    case True
    then show ?thesis
      using assms by (subst readRecords.simps) (auto simp: discarded_def Let_def)
  next
    case False
    show ?thesis
    proof (cases "Atoi (Fields line ! 1)")
      case None
      then show ?thesis
        using assms False by (subst readRecords.simps) (auto simp: discarded_def Let_def)
    next
      case (Some n)
      then show ?thesis
        using assms False
        by (subst readRecords.simps) (auto simp: discarded_def Let_def minTokenFrequency_def split: sum.splits)
    qed
  qed
qed

lemma wfDictionary_addToken:
  "wfDictionary d \<Longrightarrow> text' t \<noteq> [] \<Longrightarrow> wfDictionary (addToken d t)"
  by (simp add: wfDictionary_def addToken_def)

lemma readRecords_result:
  "\<exists>d'. readRecords F alnum reader d = Inr d'
     \<and> map termOf (tokens d') = map termOf (tokens d)
           @ map (recordTerm alnum) (filter (\<lambda>l. \<not> discarded l) (recordLines reader))
     \<and> (totalFrequency d = sum_list (map frequency (tokens d))
          \<longrightarrow> totalFrequency d' = sum_list (map frequency (tokens d')))
     \<and> (wfDictionary d \<longrightarrow> wfDictionary d')"
proof (induction "length reader" arbitrary: reader d rule: less_induct)
  case less
  obtain line rest err where r: "ReadString reader = (line, rest, err)"
    by (cases "ReadString reader") auto
  show ?case
  proof (cases "err \<and> length line = 0")
    case True
    from readRecords_done [OF r True, where F = F and alnum = alnum and d = d] show ?thesis
      by simp
  next
    case False
    have shorter: "length rest < length reader"
      using ReadString_shorter [OF r [symmetric] False] .
    note step = readRecords_step [OF r False]
    show ?thesis
    proof (cases "discarded line")
      case True
      from less.hyps [OF shorter, of d] show ?thesis
        using True by (simp add: step)
    next
      case keep: False
      then have two: "2 \<le> length (Fields line)"
        by (simp add: discarded_def)
      then have "Fields line ! 0 \<in> set (Fields line)"
        by (intro nth_mem) auto
      then have "Fields line ! 0 \<noteq> []"
        by (rule Fields_nonempty)
      from splitTextToWords_nonempty [OF this, of alnum]
      obtain words where w: "splitTextToWords alnum (Fields line ! 0) = Inr words" "words \<noteq> []"
        by blast
      define t :: "'a Token" where "t = Token words (the (Atoi (Fields line ! 1))) (flit F 0)
                  (if 3 \<le> length (Fields line) then Fields line ! 2 else []) []"
      have t: "termOf t = recordTerm alnum line" "text' t \<noteq> []"
        using w by (simp_all add: termOf_def recordTerm_def t_def)
      from less.hyps [OF shorter, of "addToken d t"]
      obtain d' where d': "readRecords F alnum rest (addToken d t) = Inr d'"
        "map termOf (tokens d') = map termOf (tokens (addToken d t))
           @ map (recordTerm alnum) (filter (\<lambda>l. \<not> discarded l) (recordLines rest))"
        "totalFrequency (addToken d t) = sum_list (map frequency (tokens (addToken d t)))
          \<longrightarrow> totalFrequency d' = sum_list (map frequency (tokens d'))"
        "wfDictionary (addToken d t) \<longrightarrow> wfDictionary d'"
        by blast
      have "readRecords F alnum reader d = Inr d'"
        using keep w(1) d'(1) by (simp add: step(1) t_def)
      moreover have "map termOf (tokens d') = map termOf (tokens d)
           @ map (recordTerm alnum) (filter (\<lambda>l. \<not> discarded l) (recordLines reader))"
        using d'(2) keep t(1) by (simp add: step(2) addToken_def)
      moreover have "totalFrequency d = sum_list (map frequency (tokens d))
          \<longrightarrow> totalFrequency d' = sum_list (map frequency (tokens d'))"
        using d'(3) by (simp add: addToken_def)
      moreover have "wfDictionary d \<longrightarrow> wfDictionary d'"
        using d'(4) wfDictionary_addToken [OF _ t(2)] by blast
      ultimately show ?thesis
        by blast
    qed
  qed
qed

lemma keepSegments_layout: "\<exists>kept. keepSegments (layout p toks) = Inr kept"
proof (induction toks arbitrary: p)
  case Nil
  then show ?case by simp
next
  case (Cons t ts)
  from Cons.IH [of "p + textSliceByteLength (text' t)"] show ?case
    by auto
qed

lemma sameTerms_refl: "sameTerms xs xs"
  by (simp add: sameTerms_def)

lemma sameTerms_trans: "sameTerms xs ys \<Longrightarrow> sameTerms ys zs \<Longrightarrow> sameTerms xs zs"
  by (simp add: sameTerms_def)

lemma sameTerms_setSegments:
  "i < length xs \<Longrightarrow> sameTerms (xs[i := setSegments (xs ! i) segs]) xs"
  by (simp add: sameTerms_def map_update setSegments_def list_update_same_conv)

lemma wfDictionary_alt: "wfDictionary d \<longleftrightarrow> [] \<notin> set (map text' (tokens d))"
  by (force simp: wfDictionary_def list_all_iff)

lemma wfDictionary_sameTerms:
  "sameTerms (tokens d') (tokens d) \<Longrightarrow> wfDictionary d \<Longrightarrow> wfDictionary d'"
  unfolding wfDictionary_alt by (simp add: sameTerms_def)

lemma map_pair_eq:
  "map f xs = map f ys \<Longrightarrow> map g xs = map g ys \<Longrightarrow>
   map (\<lambda>x. (f x, g x)) xs = map (\<lambda>x. (f x, g x)) ys"
proof (induction xs arbitrary: ys)
  case Nil
  then show ?case by simp
next
  case (Cons x xs)
  then obtain y ys' where "ys = y # ys'"
    by (cases ys) auto
  with Cons show ?case
    by auto
qed

lemma sameTerms_termOf: "sameTerms xs ys \<Longrightarrow> map termOf xs = map termOf ys"
proof -
  assume s: "sameTerms xs ys"
  then have "map (\<lambda>x. (frequency x, pos x)) xs = map (\<lambda>x. (frequency x, pos x)) ys"
    by (intro map_pair_eq) (simp_all add: sameTerms_def)
  moreover have "map (Inr \<circ> text') xs = map (Inr \<circ> text') ys"
    using s unfolding sameTerms_def by (metis map_map)
  then have "map (\<lambda>x. Inr (text' x) :: error + Text list) xs = map (\<lambda>x. Inr (text' x)) ys"
    by (simp add: comp_def)
  ultimately have "map (\<lambda>x. (Inr (text' x) :: error + Text list, (\<lambda>x. (frequency x, pos x)) x)) xs
      = map (\<lambda>x. (Inr (text' x), (\<lambda>x. (frequency x, pos x)) x)) ys"
    by (rule map_pair_eq [rotated])
  then show ?thesis
    by (simp add: termOf_def [abs_def])
qed

lemma buildSegments_result:
  assumes z: "feq F (flit F 0) (flit F 0)" and "wfDictionary d"
  shows "\<exists>d'. buildSegments F d i = Some (Inr d')
          \<and> sameTerms (tokens d') (tokens d)
          \<and> totalFrequency d' = totalFrequency d \<and> maxTokenLength d' = maxTokenLength d"
  using assms(2)
proof (induction "length (tokens d) - i" arbitrary: d i)
  case 0
  then show ?case
    by (subst buildSegments.simps) (simp add: sameTerms_refl)
next
  case (Suc n)
  then have i: "i < length (tokens d)" by simp
  let ?words = "text' (tokens d ! i)"
  have "\<exists>segs. segmentWords F \<lparr>dict = Some d\<rparr> ?words True = Some (Inr segs)
           \<and> (\<exists>kept. keepSegments segs = Inr kept)"
  proof (cases "length ?words = 1")
    case True
    then show ?thesis
      by (simp add: segmentWords_def)
  next
    case False
    then have sm: "True \<longrightarrow> length ?words \<noteq> 1" by simp
    have "dict \<lparr>dict = Some d\<rparr> = Some d" by simp
    from segmentWords_result [OF z Suc.prems this sm] show ?thesis
      using keepSegments_layout by blast
  qed
  then obtain segs kept where s: "segmentWords F \<lparr>dict = Some d\<rparr> ?words True = Some (Inr segs)"
      "keepSegments segs = Inr kept"
    by blast
  define d1 where "d1 = d\<lparr>tokens := (tokens d)[i := setSegments (tokens d ! i) kept]\<rparr>"
  have c1: "sameTerms (tokens d1) (tokens d)"
    using sameTerms_setSegments [OF i] by (simp add: d1_def)
  then have wf1: "wfDictionary d1"
    using Suc.prems by (rule wfDictionary_sameTerms)
  have "n = length (tokens d1) - Suc i"
    using Suc.hyps(2) by (simp add: d1_def)
  from Suc.hyps(1) [OF this wf1]
  obtain d' where d': "buildSegments F d1 (Suc i) = Some (Inr d')"
      "sameTerms (tokens d') (tokens d1)"
      "totalFrequency d' = totalFrequency d1" "maxTokenLength d' = maxTokenLength d1"
    by blast
  have "buildSegments F d i = Some (Inr d')"
    using i s d'(1) by (subst buildSegments.simps) (simp add: d1_def)
  then show ?case
    using d'(3,4) sameTerms_trans [OF d'(2) c1] by (simp add: d1_def)
qed

lemma assignDistances_result:
  "map termOf (tokens (assignDistances F d)) = map termOf (tokens d)
   \<and> map frequency (tokens (assignDistances F d)) = map frequency (tokens d)
   \<and> totalFrequency (assignDistances F d) = totalFrequency d
   \<and> (\<forall>t\<in>set (tokens (assignDistances F d)).
         distance t = fsub F (flog2 F (totalFrequency d)) (flog2 F (frequency t)))
   \<and> (wfDictionary d \<longrightarrow> wfDictionary (assignDistances F d))"
  by (auto simp: assignDistances_def Let_def setDistance_def termOf_def wfDictionary_def
      list_all_iff)

lemma LoadDictionary_result:
  assumes z: "feq F (flit F 0) (flit F 0)"
  shows "\<exists>d. LoadDictionary F alnum content = Some (Inr \<lparr>dict = Some d\<rparr>)
          \<and> map termOf (tokens d)
              = map (recordTerm alnum) (filter (\<lambda>line. \<not> discarded line) (recordLines content))
          \<and> totalFrequency d = sum_list (map frequency (tokens d))
          \<and> (\<forall>t\<in>set (tokens d).
                distance t = fsub F (flog2 F (totalFrequency d)) (flog2 F (frequency t)))
          \<and> wfDictionary d"
proof -
  have wf0: "wfDictionary (NewDictionary :: 'a Dictionary)"
    by (simp add: wfDictionary_def NewDictionary_def)
  from readRecords_result [of F alnum content NewDictionary]
  obtain d0 where d0: "readRecords F alnum content NewDictionary = Inr d0"
      "map termOf (tokens d0)
         = map (recordTerm alnum) (filter (\<lambda>line. \<not> discarded line) (recordLines content))"
      "totalFrequency d0 = sum_list (map frequency (tokens d0))" "wfDictionary d0"
    using wf0 by (auto simp: NewDictionary_def)
  define d1 where "d1 = assignDistances F d0"
  note a = assignDistances_result [of F d0, folded d1_def]
  have wf1: "wfDictionary d1"
    using a d0(4) by blast
  from buildSegments_result [OF z wf1, of 0]
  obtain d where d: "buildSegments F d1 0 = Some (Inr d)" "sameTerms (tokens d) (tokens d1)"
      "totalFrequency d = totalFrequency d1"
    by blast
  have load: "LoadDictionary F alnum content = Some (Inr \<lparr>dict = Some d\<rparr>)"
    using d0(1) d(1) by (simp add: LoadDictionary_def d1_def)
  have terms: "map termOf (tokens d)
      = map (recordTerm alnum) (filter (\<lambda>line. \<not> discarded line) (recordLines content))"
    using sameTerms_termOf [OF d(2)] a d0(2) by simp
  have freq: "map frequency (tokens d) = map frequency (tokens d0)"
    using d(2) a by (simp add: sameTerms_def)
  then have total: "totalFrequency d = sum_list (map frequency (tokens d))"
    using d(3) a d0(3) by simp
  have dist: "distance t = fsub F (flog2 F (totalFrequency d)) (flog2 F (frequency t))"
    if "t \<in> set (tokens d)" for t
  proof -
    from that obtain i where i: "i < length (tokens d)" "t = tokens d ! i"
      by (auto simp: in_set_conv_nth)
    have len: "length (tokens d1) = length (tokens d)"
      using d(2) unfolding sameTerms_def by (metis length_map)
    have "distance (tokens d ! i) = distance (tokens d1 ! i)"
      "frequency (tokens d ! i) = frequency (tokens d1 ! i)"
      using d(2) i(1) len unfolding sameTerms_def by (metis nth_map)+
    moreover have "tokens d1 ! i \<in> set (tokens d1)"
      using i(1) len by simp
    ultimately show ?thesis
      using a d(3) i(2) by auto
  qed
  have "wfDictionary d"
    using d(2) wf1 by (rule wfDictionary_sameTerms)
  with load terms total dist show ?thesis
    by blast
qed

text \<open>Every dictionary that \<open>LoadDictionary\<close> leaves has terms with a text.\<close>

lemma LoadDictionary_wfDictionary:
  assumes "feq F (flit F 0) (flit F 0)"
  shows "\<exists>d. LoadDictionary F alnum content = Some (Inr \<lparr>dict = Some d\<rparr>) \<and> wfDictionary d"
  using LoadDictionary_result [OF assms, of alnum content] by blast






section \<open>The segmenter on loaded dictionaries\<close>


lemma exampleDictionary_wf: "wfDictionary exampleDictionary"
  by (simp add: wfDictionary_def exampleDictionary_def zhong_def guo_def)









text \<open>
  Claim C9. The empty input gives the empty sequence of segments in both modes, before the
  dictionary is looked at; and in search mode so does every input that splits into exactly
  one unit.
\<close>

theorem empty_and_single_unit_inputs:
  "Segment' F alnum seg [] = Some (Inr [])
   \<and> InternalSegment F alnum seg [] True = Some (Inr [])
   \<and> (splitTextToWords alnum bytes = Inr [u] \<longrightarrow>
        InternalSegment F alnum seg bytes True = Some (Inr []))"
  by (simp add: Segment'_def InternalSegment_def internalSegment_def segmentWords_def)

theorem empty_and_single_unit_inputs_witness:
  "splitTextToWords asciiAlnum [0x41, 0x62, 0x31] = Inr [[0x61, 0x62, 0x31]]
   \<and> InternalSegment exactFloat asciiAlnum \<lparr>dict = Some exampleDictionary\<rparr> [0x41, 0x62, 0x31] True
       = Some (Inr [])
   \<and> Segment' exactFloat asciiAlnum \<lparr>dict = Some exampleDictionary\<rparr> [] = Some (Inr [])"
proof -
  have split: "splitTextToWords asciiAlnum [0x41, 0x62, 0x31] = Inr [[0x61, 0x62, 0x31]]"
    by code_simp
  from empty_and_single_unit_inputs [of exactFloat asciiAlnum "\<lparr>dict = Some exampleDictionary\<rparr>"
      "[0x41, 0x62, 0x31]" "[0x61, 0x62, 0x31]"]
  show ?thesis
    using split by simp
qed

lemma sorted_concat_upt:
  assumes "\<And>k t. k < j \<Longrightarrow> t \<in> set (f k) \<Longrightarrow> g t = k"
  shows "sorted (map g (concat (map f [0..<j])))"
  using assms
proof (induction j)
  case 0
  then show ?case by simp
next
  case (Suc j)
  have "sorted (map g (concat (map f [0..<j])))"
    using Suc.prems by (intro Suc.IH) auto
  moreover have "\<forall>x\<in>set (concat (map f [0..<j])). \<forall>y\<in>set (f j). g x \<le> g y"
  proof (intro ballI)
    fix x y assume "x \<in> set (concat (map f [0..<j]))" "y \<in> set (f j)"
    then obtain k where "k < j" "x \<in> set (f k)"
      by auto
    then have "g x = k" "g y = j"
      using Suc.prems [of k x] Suc.prems [of j y] \<open>y \<in> set (f j)\<close> by auto
    then show "g x \<le> g y"
      using \<open>k < j\<close> by simp
  qed
  moreover have "sorted (map g (f j))"
    using Suc.prems [of j] by (induction "f j") (auto simp: sorted_wrt_map sorted_wrt_iff_nth_less)
  ultimately show ?case
    by (simp add: sorted_append)
qed

lemma lookupTokens_sorted: "sorted (map (\<lambda>t. length (text' t)) (lookupTokens d window))"
  unfolding lookupTokens_def by (rule sorted_concat_upt) auto

lemma needsPseudoToken_iff:
  fixes d :: "'f Dictionary" and window :: "Text list"
  assumes "wfDictionary d"
  defines "toks \<equiv> lookupTokens d window"
  shows "needsPseudoToken toks \<longleftrightarrow> toks = [] \<or> (\<forall>t\<in>set toks. 1 < length (text' t))"
    and "needsPseudoToken toks \<longleftrightarrow> \<not> (\<exists>t\<in>set toks. length (text' t) = 1)"
proof -
  have pos: "1 \<le> length (text' t)" if "t \<in> set toks" for t
  proof -
    from that have "t \<in> set (tokens d)"
      by (simp add: toks_def lookupTokens_set)
    with assms(1) have "text' t \<noteq> []"
      by (auto simp: wfDictionary_def list_all_iff)
    then show ?thesis
      by (cases "text' t") auto
  qed
  have first: "length (text' (toks ! 0)) \<le> length (text' t)" if "t \<in> set toks" for t
  proof -
    from that obtain i where i: "i < length toks" "t = toks ! i"
      by (auto simp: in_set_conv_nth)
    have "sorted (map (\<lambda>t. length (text' t)) toks)"
      unfolding toks_def by (rule lookupTokens_sorted)
    then have "map (\<lambda>t. length (text' t)) toks ! 0 \<le> map (\<lambda>t. length (text' t)) toks ! i"
      using i(1) by (intro sorted_nth_mono) auto
    moreover have "0 < length toks"
      using i(1) by auto
    ultimately show ?thesis
      using i by simp
  qed
  show a: "needsPseudoToken toks \<longleftrightarrow> toks = [] \<or> (\<forall>t\<in>set toks. 1 < length (text' t))"
  proof (cases "toks = []")
    case True
    then show ?thesis by (simp add: needsPseudoToken_def)
  next
    case False
    then have "toks ! 0 \<in> set toks" by simp
    with first False show ?thesis
      by (fastforce simp: needsPseudoToken_def)
  qed
  show "needsPseudoToken toks \<longleftrightarrow> \<not> (\<exists>t\<in>set toks. length (text' t) = 1)"
    unfolding a using pos by (cases "toks = []") fastforce+
qed

text \<open>
  Claim C3. One step of the forward pass, at a position of the text, updates the cells for
  the tokens found by the lookup there and then calls \<open>updateJumper\<close>, for the cell of the
  position itself, with a new token of that one unit, frequency 1, distance 32 and tag
  \<open>x\<close>, exactly when the lookup found nothing or only tokens longer than one unit; that
  is, exactly when it found no token of one unit. The dictionary is one whose terms have a
  text, as every dictionary loaded is.
\<close>

theorem pseudo_token_injection:
  fixes F :: "'f Float32" and d :: "'f Dictionary" and jumpers :: "'f jumper list"
  assumes "wfDictionary d" and "current < length words" and "length jumpers = length words"
  defines "toks \<equiv> lookupTokens d
      (take (minInt (current + maxTokenLength d) (length words) - current) (drop current words))"
    and "base \<equiv> (if current = 0 then flit F 0 else minDistance (jumpers ! (current - 1)))"
  shows "forwardStep F d words searchMode current jumpers =
          (case updateTokens F (length words) searchMode current base toks jumpers of
             Inl e \<Rightarrow> Inl e
           | Inr jumpers' \<Rightarrow>
              if toks = [] \<or> (\<forall>t\<in>set toks. 1 < length (text' t))
              then updateJumperAt F jumpers' (int current) base
                     (Token [words ! current] 1 (flit F 32) [0x78] [])
              else Inr jumpers')
        \<and> ((toks = [] \<or> (\<forall>t\<in>set toks. 1 < length (text' t)))
              \<longleftrightarrow> \<not> (\<exists>t\<in>set toks. length (text' t) = 1))"
proof -
  define m where "m = minInt (current + maxTokenLength d) (length words)"
  have base: "(if current = 0 then Inr (flit F 0)
           else map_sum id minDistance (index jumpers (int current - 1))) = Inr base"
    using assms(2,3) by (auto simp: index_def base_def nat_diff_distrib)
  have "current \<le> m" "m \<le> length words"
    using assms(2) by (auto simp: m_def minInt_def)
  then have window: "slice words current m = Inr (take (m - current) (drop current words))"
    by (simp add: slice_def)
  have word: "index words (int current) = Inr (words ! current)"
    using assms(2) by (simp add: index_def)
  note iff = needsPseudoToken_iff [OF assms(1), of "take (m - current) (drop current words)",
      folded m_def toks_def, unfolded m_def, folded toks_def]
  have "forwardStep F d words searchMode current jumpers =
          (case updateTokens F (length words) searchMode current base toks jumpers of
             Inl e \<Rightarrow> Inl e
           | Inr jumpers' \<Rightarrow>
              if needsPseudoToken toks
              then updateJumperAt F jumpers' (int current) base (pseudoToken F (words ! current))
              else Inr jumpers')"
    unfolding forwardStep_def base
    by (simp add: window m_def [symmetric] toks_def word Let_def split: sum.splits)
  then show ?thesis
    using iff by (auto simp: pseudoToken_def split: sum.splits)
qed

theorem pseudo_token_injection_witness:
  "wfDictionary exampleDictionary \<and> 2 < length [zhong, guo, [0x61 :: byte]]
   \<and> lookupTokens exampleDictionary
        (take (minInt (2 + maxTokenLength exampleDictionary) (length [zhong, guo, [0x61 :: byte]]) - 2)
           (drop 2 [zhong, guo, [0x61]])) = []
   \<and> forwardStep exactFloat exampleDictionary [zhong, guo, [0x61]] False 2
        [\<lparr>minDistance = 2, jtoken = Some (tokens exampleDictionary ! 1)\<rparr>,
         \<lparr>minDistance = 1, jtoken = Some (tokens exampleDictionary ! 0)\<rparr>,
         \<lparr>minDistance = 0, jtoken = None\<rparr>]
     = Inr [\<lparr>minDistance = 2, jtoken = Some (tokens exampleDictionary ! 1)\<rparr>,
            \<lparr>minDistance = 1, jtoken = Some (tokens exampleDictionary ! 0)\<rparr>,
            \<lparr>minDistance = 33, jtoken = Some (Token [[0x61]] 1 32 [0x78] [])\<rparr>]
   \<and> forwardStep exactFloat exampleDictionary [zhong, guo, [0x61]] False 0
        (replicate 3 \<lparr>minDistance = 0, jtoken = None\<rparr>)
     = Inr [\<lparr>minDistance = 2, jtoken = Some (tokens exampleDictionary ! 1)\<rparr>,
            \<lparr>minDistance = 1, jtoken = Some (tokens exampleDictionary ! 0)\<rparr>,
            \<lparr>minDistance = 0, jtoken = None\<rparr>]"
proof -
  let ?words = "[zhong, guo, [0x61 :: byte]]"
  let ?J = "[\<lparr>minDistance = 2, jtoken = Some (tokens exampleDictionary ! 1)\<rparr>,
         \<lparr>minDistance = 1, jtoken = Some (tokens exampleDictionary ! 0)\<rparr>,
         \<lparr>minDistance = (0 :: int), jtoken = None\<rparr>]"
  have c: "2 < length ?words" and l: "length ?J = length ?words"
    by simp_all
  have none: "lookupTokens exampleDictionary
        (take (minInt (2 + maxTokenLength exampleDictionary) (length ?words) - 2) (drop 2 ?words)) = []"
    by code_simp
  have first: "forwardStep exactFloat exampleDictionary ?words False 0
        (replicate 3 \<lparr>minDistance = 0, jtoken = None\<rparr>)
     = Inr ?J"
    by code_simp
  have upd: "updateJumperAt exactFloat ?J (int 2) 1 (Token [[0x61]] 1 (flit exactFloat 32) [0x78] [])
     = Inr [\<lparr>minDistance = 2, jtoken = Some (tokens exampleDictionary ! 1)\<rparr>,
            \<lparr>minDistance = 1, jtoken = Some (tokens exampleDictionary ! 0)\<rparr>,
            \<lparr>minDistance = 33, jtoken = Some (Token [[0x61]] 1 32 [0x78] [])\<rparr>]"
    by code_simp
  from pseudo_token_injection [OF exampleDictionary_wf c l, of exactFloat False]
  have "forwardStep exactFloat exampleDictionary ?words False 2 ?J
     = Inr [\<lparr>minDistance = 2, jtoken = Some (tokens exampleDictionary ! 1)\<rparr>,
            \<lparr>minDistance = 1, jtoken = Some (tokens exampleDictionary ! 0)\<rparr>,
            \<lparr>minDistance = 33, jtoken = Some (Token [[0x61]] 1 32 [0x78] [])\<rparr>]"
    unfolding none using upd by simp
  then show ?thesis
    using exampleDictionary_wf c none first by simp
qed

text \<open>
  Claim C2, on a dictionary with one term, \<open>zhong guo\<close> with the frequency 4, and the text
  \<open>zhong guo\<close>. The distance of the term is \<open>log2 4 - log2 4 = 0\<close>. At the position 0 the
  forward pass writes the term into the cell 1 with the cost \<open>0 + 0\<close>. At the position 1
  the candidate is the pseudo token with the cost \<open>32 + 32\<close>: this is not the first update of
  the cell 1 and 64 is not smaller than the cost recorded, yet the candidate is written,
  because the cost recorded is the zero by which \<open>updateJumper\<close> recognises a cell never
  visited. The text is segmented into two pseudo tokens and the term is lost.
\<close>

theorem zero_cost_cell_overwritten:
  "LoadDictionary exactFloat asciiAlnum zeroCostContent = Some (Inr \<lparr>dict = Some zeroCostDictionary\<rparr>)
   \<and> forwardStep exactFloat zeroCostDictionary [zhong, guo] False 0
        (replicate 2 \<lparr>minDistance = 0, jtoken = None\<rparr>)
     = Inr [\<lparr>minDistance = 32, jtoken = Some (pseudoToken exactFloat zhong)\<rparr>,
            \<lparr>minDistance = 0, jtoken = Some (tokens zeroCostDictionary ! 0)\<rparr>]
   \<and> forwardStep exactFloat zeroCostDictionary [zhong, guo] False 1
        [\<lparr>minDistance = 32, jtoken = Some (pseudoToken exactFloat zhong)\<rparr>,
         \<lparr>minDistance = 0, jtoken = Some (tokens zeroCostDictionary ! 0)\<rparr>]
     = Inr [\<lparr>minDistance = 32, jtoken = Some (pseudoToken exactFloat zhong)\<rparr>,
            \<lparr>minDistance = 64, jtoken = Some (pseudoToken exactFloat guo)\<rparr>]
   \<and> \<not> fgt exactFloat 0 64
   \<and> Segment' exactFloat asciiAlnum \<lparr>dict = Some zeroCostDictionary\<rparr> (zhong @ guo)
     = Some (Inr [Segment 0 3 (Some (pseudoToken exactFloat zhong)),
                  Segment 3 6 (Some (pseudoToken exactFloat guo))])"
proof -
  have "LoadDictionary exactFloat asciiAlnum zeroCostContent = Some (Inr \<lparr>dict = Some zeroCostDictionary\<rparr>)"
    by code_simp
  moreover have "forwardStep exactFloat zeroCostDictionary [zhong, guo] False 0
        (replicate 2 \<lparr>minDistance = 0, jtoken = None\<rparr>)
     = Inr [\<lparr>minDistance = 32, jtoken = Some (pseudoToken exactFloat zhong)\<rparr>,
            \<lparr>minDistance = 0, jtoken = Some (tokens zeroCostDictionary ! 0)\<rparr>]"
    by code_simp
  moreover have "forwardStep exactFloat zeroCostDictionary [zhong, guo] False 1
        [\<lparr>minDistance = 32, jtoken = Some (pseudoToken exactFloat zhong)\<rparr>,
         \<lparr>minDistance = 0, jtoken = Some (tokens zeroCostDictionary ! 0)\<rparr>]
     = Inr [\<lparr>minDistance = 32, jtoken = Some (pseudoToken exactFloat zhong)\<rparr>,
            \<lparr>minDistance = 64, jtoken = Some (pseudoToken exactFloat guo)\<rparr>]"
    by code_simp
  moreover have "\<not> fgt exactFloat 0 64"
    by (simp add: exactFloat_def)
  moreover have "Segment' exactFloat asciiAlnum \<lparr>dict = Some zeroCostDictionary\<rparr> (zhong @ guo)
     = Some (Inr [Segment 0 3 (Some (pseudoToken exactFloat zhong)),
                  Segment 3 6 (Some (pseudoToken exactFloat guo))])"
    by code_simp
  ultimately show ?thesis
    by blast
qed

end
